theory Spec2Isabelle
  imports Main "HOL-Library.Multiset"
begin

section \<open>The Shaker compiler (lib/shaker.js)\<close>

text \<open>
  The metadata handed over by the Shaker core is a JavaScript object whose leaves are
  arrays of file names.  The compiler mutates these arrays in place and keeps references
  to them inside queued tasks, so the arrays live in a store and the tree holds their
  addresses.  Objects iterated with \<open>for ... in\<close> are association lists in
  iteration order.
\<close>

subsection \<open>Data model\<close>

type_synonym addr = nat
type_synonym store = "addr \<Rightarrow> string list"

record view =
  shaken :: "(string \<times> addr) list"
  client :: addr

record metadata =
  core :: addr
  mojits :: "(string \<times> (string \<times> view) list) list"
  app :: "(string \<times> view) list"
  images :: addr

text \<open>An array element \<open>{name: file, sync: true}\<close> as read by a gear queue.\<close>

record read_item =
  item_name :: string
  item_sync :: bool

text \<open>Elements of the arrays returned by \<open>_filterFiles\<close>: the bare file name, or the
  wrapped form when \<open>syncWrap\<close> is set.\<close>

datatype filtered_item = Plain string | Wrapped read_item

fun file_name :: "filtered_item \<Rightarrow> string" where
  "file_name (Plain file) = file"
| "file_name (Wrapped item) = item_name item"

record filtered =
  js :: "filtered_item list"
  css :: "filtered_item list"

subsection \<open>Content types\<close>

text \<open>
  Modelled from the spec: the content-type inference \<open>mime.lookup\<close> of the \<open>mime\<close>
  module, which is not part of the sources.  The spec says that classification is by
  content-type inference from the file extension; the extension is the text after the
  last dot of the path.  The general results below take the lookup as a parameter and
  use this table only for concrete file names.
\<close>

fun after_last :: "char \<Rightarrow> string \<Rightarrow> string \<Rightarrow> string" where
  "after_last sep acc [] = acc"
| "after_last sep acc (c # cs) = (if c = sep then after_last sep cs cs else after_last sep acc cs)"

definition extension :: "string \<Rightarrow> string" where
  "extension file = after_last (CHR ''.'') file file"

definition mime_lookup :: "string \<Rightarrow> string" where
  "mime_lookup file =
     (let ext = extension file in
      if ext = ''js'' then ''application/javascript''
      else if ext = ''css'' then ''text/css''
      else if ext = ''html'' then ''text/html''
      else if ext = ''png'' then ''image/png''
      else ''application/octet-stream'')"

subsection \<open>Separating JS and CSS files\<close>

definition wrap :: "bool \<Rightarrow> string \<Rightarrow> filtered_item" where
  "wrap syncWrap file =
     (if syncWrap then Wrapped \<lparr>item_name = file, item_sync = True\<rparr> else Plain file)"

text \<open>The body of the \<open>forEach\<close> callback of \<open>_filterFiles\<close>, acting on the two arrays.\<close>

definition filterFiles_step ::
  "(string \<Rightarrow> string) \<Rightarrow> bool \<Rightarrow> string \<Rightarrow> filtered \<Rightarrow> filtered" where
  "filterFiles_step lookup syncWrap file acc =
     (let type = lookup file in
      if type = ''application/javascript'' then acc\<lparr>js := js acc @ [wrap syncWrap file]\<rparr>
      else if type = ''text/css'' then acc\<lparr>css := css acc @ [wrap syncWrap file]\<rparr>
      else acc)"

definition filterFiles :: "(string \<Rightarrow> string) \<Rightarrow> string list \<Rightarrow> bool \<Rightarrow> filtered" where
  "filterFiles lookup fs syncWrap =
     fold (filterFiles_step lookup syncWrap) fs \<lparr>js = [], css = []\<rparr>"

subsection \<open>The Shaker object and its collaborators\<close>

text \<open>The config object passed through to the gear task: \<open>root\<close> is set by the
  constructor of \<open>Shaker\<close>, \<open>name\<close> and \<open>encoding\<close> by the builders.\<close>

record config =
  cfg_root :: string
  cfg_name :: "string option"
  cfg_encoding :: "string option"
  cfg_other :: "(string \<times> string) list"

text \<open>The fields set by the constructor \<open>Shaker\<close> from the application's configuration.\<close>

record shaker =
  sh_task :: string
  sh_compiled_dir :: string
  sh_images :: bool
  sh_parallel :: nat
  sh_delay :: nat
  sh_lint :: bool
  sh_minify :: bool
  sh_strip :: "string option"
  sh_config :: config

definition DEFAULT_TASK :: string where
  "DEFAULT_TASK = ''raw''"

definition ASSETS_DIR :: string where
  "ASSETS_DIR = ''assets/''"

definition COMPILED_DIR :: string where
  "COMPILED_DIR = ASSETS_DIR @ ''compiled/''"

definition IMAGES_DIR :: string where
  "IMAGES_DIR = ASSETS_DIR @ ''images/''"

text \<open>
  The Shaker core (module \<open>./core\<close>) is a collaborator outside these sources; the
  compiler uses the following of its methods, taken as parameters.  \<open>core_run\<close> is the
  metadata returned by \<open>run\<close> together with the contents of its arrays.
\<close>

record shaker_core =
  isMojitApp :: bool
  core_run :: "metadata \<times> store"
  getFiles :: "string list"
  getURL :: "string \<Rightarrow> string"
  getAppRoot :: string

subsection \<open>Builders\<close>

text \<open>The three builder objects with their constructor arguments: \<open>Image(name, file)\<close>,
  \<open>Rollup(name, files)\<close> and \<open>ClientRollup(name, base, files)\<close>.  The constructors of the
  rollups wrap every file name.\<close>

datatype builder =
    Image string string
  | Rollup string "read_item list"
  | ClientRollup string string "read_item list"

definition sync_items :: "string list \<Rightarrow> read_item list" where
  "sync_items fs = map (\<lambda>file. \<lparr>item_name = file, item_sync = True\<rparr>) fs"

definition new_Rollup :: "string \<Rightarrow> string list \<Rightarrow> builder" where
  "new_Rollup name fs = Rollup name (sync_items fs)"

definition new_ClientRollup :: "string \<Rightarrow> string \<Rightarrow> string list \<Rightarrow> builder" where
  "new_ClientRollup name base fs = ClientRollup name base (sync_items fs)"

fun builder_name :: "builder \<Rightarrow> string" where
  "builder_name (Image name file) = name"
| "builder_name (Rollup name items) = name"
| "builder_name (ClientRollup name base items) = name"

subsection \<open>Queueing the rollups\<close>

text \<open>A queued item \<open>{object: builder, files: array}\<close>; \<open>files\<close> is a reference to an array
  of the metadata.\<close>

record task =
  object :: builder
  files :: addr

text \<open>While \<open>_queueRollups\<close> runs, the state is the list of items pushed so far and the
  store.  Pushing only schedules work for a later tick, so no item is processed before
  \<open>_queueRollups\<close> returns.\<close>

type_synonym plan = "task list \<times> store"

definition push :: "task \<Rightarrow> plan \<Rightarrow> plan" where
  "push t p = (fst p @ [t], snd p)"

text \<open>The assignment \<open>array.length = 0\<close>.\<close>

definition clear :: "addr \<Rightarrow> plan \<Rightarrow> plan" where
  "clear a p = (fst p, (snd p)(a := []))"

text \<open>\<open>path.basename\<close>: the last segment of the path, that is, the text after the last
  slash once the slashes that end the path are dropped.\<close>

definition basename :: "string \<Rightarrow> string" where
  "basename file =
     (let trimmed = rev (dropWhile (\<lambda>c. c = CHR ''/'') (rev file))
      in after_last (CHR ''/'') trimmed trimmed)"

text \<open>\<open>action.replace('*', 'default')\<close>: a string pattern replaces its first occurrence.\<close>

fun replace_star :: "string \<Rightarrow> string" where
  "replace_star [] = []"
| "replace_star (c # cs) = (if c = CHR ''*'' then ''default'' @ cs else c # replace_star cs)"

definition queue_images :: "metadata \<Rightarrow> plan \<Rightarrow> plan" where
  "queue_images md p =
     clear (images md)
       (fold (\<lambda>image. push \<lparr>object = Image (IMAGES_DIR @ basename image) image,
                              files = images md\<rparr>)
          (snd p (images md)) p)"

definition queue_core :: "shaker \<Rightarrow> metadata \<Rightarrow> plan \<Rightarrow> plan" where
  "queue_core sh md p =
     clear (core md)
       (push \<lparr>object = new_Rollup (sh_compiled_dir sh @ ''core_{checksum}.js'') (snd p (core md)),
              files = core md\<rparr> p)"

definition queue_client :: "string \<Rightarrow> string \<Rightarrow> addr \<Rightarrow> plan \<Rightarrow> plan" where
  "queue_client name base a p =
     (if snd p a \<noteq> []
      then clear a (push \<lparr>object = new_ClientRollup name base (snd p a), files = a\<rparr> p)
      else p)"

definition queue_dim ::
  "shaker \<Rightarrow> (string \<Rightarrow> string) \<Rightarrow> string \<Rightarrow> string \<times> addr \<Rightarrow> plan \<Rightarrow> plan" where
  "queue_dim sh lookup name d p =
     (let a = snd d in
      if snd p a \<noteq> [] then
        let filtered = filterFiles lookup (snd p a) False;
            p1 = (if js filtered \<noteq> []
                  then push \<lparr>object = new_Rollup (sh_compiled_dir sh @ name @ ''.js'')
                                         (map file_name (js filtered)),
                              files = a\<rparr> p
                  else p);
            p2 = (if css filtered \<noteq> []
                  then push \<lparr>object = new_Rollup (sh_compiled_dir sh @ name @ ''.css'')
                                         (map file_name (css filtered)),
                              files = a\<rparr> p1
                  else p1)
        in clear a p2
      else p)"

definition queue_mojit_action ::
  "shaker \<Rightarrow> shaker_core \<Rightarrow> (string \<Rightarrow> string) \<Rightarrow> string \<Rightarrow> string \<times> view \<Rightarrow> plan \<Rightarrow> plan" where
  "queue_mojit_action sh c lookup mojit av p =
     fold (queue_dim sh lookup (mojit @ ''_'' @ replace_star (fst av) @ ''_{checksum}''))
       (shaken (snd av))
       (queue_client (sh_compiled_dir sh @ ''client_'' @ mojit @ ''_{checksum}.js'')
          (getAppRoot c) (client (snd av)) p)"

definition queue_mojit ::
  "shaker \<Rightarrow> shaker_core \<Rightarrow> (string \<Rightarrow> string) \<Rightarrow> string \<times> (string \<times> view) list \<Rightarrow> plan \<Rightarrow> plan"
  where
  "queue_mojit sh c lookup m p = fold (queue_mojit_action sh c lookup (fst m)) (snd m) p"

definition queue_app_action ::
  "shaker \<Rightarrow> shaker_core \<Rightarrow> (string \<Rightarrow> string) \<Rightarrow> string \<times> view \<Rightarrow> plan \<Rightarrow> plan" where
  "queue_app_action sh c lookup av p =
     fold (queue_dim sh lookup (''app_'' @ replace_star (fst av) @ ''_{checksum}''))
       (shaken (snd av))
       (queue_client (sh_compiled_dir sh @ ''appclient_'' @ fst av @ ''_{checksum}.js'')
          (getAppRoot c) (client (snd av)) p)"

definition queueRollups ::
  "shaker \<Rightarrow> shaker_core \<Rightarrow> (string \<Rightarrow> string) \<Rightarrow> metadata \<Rightarrow> plan \<Rightarrow> plan" where
  "queueRollups sh c lookup md p =
     fold (queue_app_action sh c lookup) (app md)
       (fold (queue_mojit sh c lookup) (mojits md)
          (queue_core sh md (if sh_images sh then queue_images md p else p)))"

subsection \<open>The gear queue\<close>

text \<open>
  The builders describe their work as a chain of gear tasks and hand it to gear's
  \<open>run\<close>.  Gear itself (reading, concatenating, minifying, writing, content hashing) is
  outside these sources; the chain is data, and what running it gives is a parameter
  of the environment.
\<close>

type_synonym err = string

text \<open>A blob handed to a \<open>concat\<close> callback: its \<open>name\<close> and its \<open>result\<close>.\<close>

type_synonym blob = "string \<times> string"

datatype gear_step =
    Read "read_item list"
  | ReadBin string
  | Concat "(blob \<Rightarrow> err + string) option"
  | Replace string
  | GearTask string "config option"

text \<open>The first blob of the results of a finished chain.\<close>

record gear_result =
  res_url :: "string option"
  res_name :: string
  res_skipped :: bool

text \<open>A blob after the \<open>csslint\<close> task: its optional name and the lint messages.\<close>

record lint_blob =
  lint_name :: "string option"
  csslint :: "string list"

text \<open>
  The environment of a run: \<open>mime.lookup\<close>, gear's \<open>run\<close> on a chain of tasks, gear's
  \<open>csslint\<close> on the files read (the blobs it hands to the callback, or a read error),
  the match of a view's file name against the two regular expressions of
  \<open>ClientRollup\<close> (mojit, action, renderer), \<open>JSON.stringify\<close> on a string, and the order
  in which the tasks in flight complete: each number picks one of them.
\<close>

record environment =
  mime :: "string \<Rightarrow> string"
  gear_run :: "gear_step list \<Rightarrow> err + gear_result"
  gear_csslint :: "filtered_item list \<Rightarrow> err + lint_blob list"
  match_view :: "string \<Rightarrow> (string \<times> string \<times> string) option"
  json_stringify :: "string \<Rightarrow> string"
  completion_order :: "nat list"

subsection \<open>Building\<close>

text \<open>
  The options object of a build.  The builders read five properties of it; a property
  that the object does not have reads as \<open>undefined\<close>, which is \<open>None\<close> here.
\<close>

record options =
  opt_task :: string
  opt_minify :: bool
  opt_strip :: "string option"
  opt_config :: config
  opt_bundleViews :: "bool option"

text \<open>The object literal built by the worker of \<open>_compileRollups\<close>: it has the properties
  \<open>task\<close>, \<open>minify\<close>, \<open>strip\<close> and \<open>config\<close> and no other.\<close>

definition build_options :: "shaker \<Rightarrow> options" where
  "build_options sh =
     \<lparr>opt_task = sh_task sh, opt_minify = sh_minify sh, opt_strip = sh_strip sh,
      opt_config = sh_config sh, opt_bundleViews = None\<rparr>"

text \<open>\<open>result.url ? result.url : config.root + result.name\<close>; the empty string is falsy.\<close>

definition result_url :: "config \<Rightarrow> gear_result \<Rightarrow> string" where
  "result_url cfg result =
     (case res_url result of
        Some u \<Rightarrow> if u \<noteq> [] then u else cfg_root cfg @ res_name result
      | None \<Rightarrow> cfg_root cfg @ res_name result)"

text \<open>\<open>if (options.strip) queue.replace(options.strip)\<close>.\<close>

definition strip_steps :: "options \<Rightarrow> gear_step list" where
  "strip_steps opts =
     (case opt_strip opts of
        Some pat \<Rightarrow> if pat \<noteq> [] then [Replace pat] else []
      | None \<Rightarrow> [])"

definition dq :: string where
  "dq = [CHR 0x22]"

definition nl :: string where
  "nl = [CHR 0x0A]"

definition tab :: string where
  "tab = [CHR 0x09]"

text \<open>The registration snippet of a view; a file name that matches neither regular
  expression makes \<open>parts\<close> null, and reading \<open>parts[1]\<close> throws.\<close>

definition view_snippet :: "environment \<Rightarrow> blob \<Rightarrow> err + string" where
  "view_snippet env b =
     (case match_view env (fst b) of
        None \<Rightarrow> Inl ''TypeError''
      | Some (mojit, action, renderer) \<Rightarrow>
          Inr (''YUI.add('' @ dq @ ''views/'' @ mojit @ ''/'' @ action @ dq
                 @ '', function (Y, NAME) {'' @ nl
               @ tab @ ''YUI.namespace('' @ dq @ ''_mojito._cache.compiled.'' @ mojit
                 @ ''.views'' @ dq @ '');'' @ nl
               @ tab @ ''YUI._mojito._cache.compiled.'' @ mojit @ ''.views.'' @ action
                 @ '' = '' @ json_stringify env (snd b) @ '';'' @ nl
               @ ''});''))"

text \<open>The callback that \<open>ClientRollup.build\<close> passes to \<open>concat\<close>.\<close>

definition concat_callback :: "environment \<Rightarrow> options \<Rightarrow> blob \<Rightarrow> err + string" where
  "concat_callback env opts b =
     (if mime env (fst b) = ''text/html''
      then (if opt_bundleViews opts = Some True then view_snippet env b else Inr [])
      else Inr (snd b))"

text \<open>The chains of the three builders, and \<open>build\<close>: the error of the run, or the URL
  and the \<open>skipped\<close> flag passed to the callback (only \<open>Rollup\<close> passes the flag).\<close>

fun build_chain :: "environment \<Rightarrow> options \<Rightarrow> builder \<Rightarrow> gear_step list" where
  "build_chain env opts (Image name file) =
     [ReadBin file,
      GearTask (opt_task opts)
        (Some ((opt_config opts)\<lparr>cfg_name := Some name, cfg_encoding := Some ''bin''\<rparr>))]"
| "build_chain env opts (Rollup name items) =
     [Read items, Concat None] @ strip_steps opts
     @ (if opt_minify opts
        then [GearTask (if mime env name = ''application/javascript''
                        then ''jsminify'' else ''cssminify'') None]
        else [])
     @ [GearTask (opt_task opts) (Some ((opt_config opts)\<lparr>cfg_name := Some name\<rparr>))]"
| "build_chain env opts (ClientRollup name base items) =
     [Read items, Concat (Some (concat_callback env opts))] @ strip_steps opts
     @ (if opt_minify opts then [GearTask ''jsminify'' None] else [])
     @ [GearTask (opt_task opts) (Some ((opt_config opts)\<lparr>cfg_name := Some name\<rparr>))]"

fun passes_skipped :: "builder \<Rightarrow> bool" where
  "passes_skipped (Rollup name items) = True"
| "passes_skipped b = False"

definition build :: "environment \<Rightarrow> options \<Rightarrow> builder \<Rightarrow> err + string \<times> bool" where
  "build env opts b =
     (case gear_run env (build_chain env opts b) of
        Inl e \<Rightarrow> Inl e
      | Inr result \<Rightarrow>
          Inr (result_url (opt_config opts) result, passes_skipped b \<and> res_skipped result))"

subsection \<open>The observable state of a run\<close>

text \<open>
  Besides the arrays of the metadata, a run is observed through the items whose build
  has called back, the writes of the metadata file (path and the arrays as
  serialised) and the calls of the callback given to \<open>run\<close>.  An outcome is the final
  state and the first exception that escaped, if one did.  Logging, the gear registry and
  the delay before a build are not observed.
\<close>

datatype callback_args = CbError string | CbDone metadata store

record world =
  heap :: store
  builds :: "task list"
  meta_writes :: "(string \<times> metadata \<times> store) list"
  callbacks :: "callback_args list"

type_synonym outcome = "world \<times> err option"

definition writeMeta :: "shaker_core \<Rightarrow> metadata \<Rightarrow> world \<Rightarrow> world" where
  "writeMeta c md w =
     w\<lparr>meta_writes := meta_writes w
          @ [(getAppRoot c @ ''/autoload/compiled/shaker-meta.common.js'', md, heap w)]\<rparr>"

definition callback :: "callback_args \<Rightarrow> world \<Rightarrow> world" where
  "callback args w = w\<lparr>callbacks := callbacks w @ [args]\<rparr>"

subsection \<open>Renaming for development\<close>

text \<open>The loop \<open>for (item in list) list[item] = getURL(list[item])\<close> on one array.\<close>

definition rename_list :: "shaker_core \<Rightarrow> addr \<Rightarrow> store \<Rightarrow> store" where
  "rename_list c a h = h(a := map (getURL c) (h a))"

definition rename_action :: "shaker_core \<Rightarrow> string \<times> view \<Rightarrow> store \<Rightarrow> store" where
  "rename_action c av h =
     rename_list c (client (snd av)) (fold (\<lambda>d. rename_list c (snd d)) (shaken (snd av)) h)"

definition rename :: "shaker_core \<Rightarrow> metadata \<Rightarrow> store \<Rightarrow> store" where
  "rename c md h =
     rename_list c (core md)
       (fold (rename_action c) (app md)
          (fold (\<lambda>m. fold (rename_action c) (snd m)) (mojits md) h))"

subsection \<open>Compiling the rollups\<close>

text \<open>The worker of the queue on one item: build, then throw the error or push the URL
  to the item's array.\<close>

definition worker :: "shaker \<Rightarrow> environment \<Rightarrow> task \<Rightarrow> world \<Rightarrow> outcome" where
  "worker sh env item w =
     (let w1 = w\<lparr>builds := builds w @ [item]\<rparr> in
      case build env (build_options sh) (object item) of
        Inl e \<Rightarrow> (w1, Some e)
      | Inr (url, skipped) \<Rightarrow>
          (w1\<lparr>heap := (heap w1)(files item := heap w1 (files item) @ [url])\<rparr>, None))"

text \<open>The \<open>drain\<close> function of the queue.\<close>

definition drain :: "shaker_core \<Rightarrow> metadata \<Rightarrow> world \<Rightarrow> world" where
  "drain c md w = (let w1 = writeMeta c md w in callback (CbDone md (heap w1)) w1)"

text \<open>
  Modelled from the spec: the concurrency-bounded executor (the queue of the \<open>async\<close>
  module, which is not part of the sources).  By the spec it runs the submitted tasks
  with at most \<open>maxConcurrent\<close> of them in flight, tasks are submitted in planning order
  and complete in any order, there is no way to cancel: after a failure the tasks in
  flight still complete and write their sinks, and the drain is the point at which
  the queue has completed every submitted task and holds none pending or in flight.
  A state of the queue holds the tasks not yet started, the tasks in flight, the
  number of tasks whose callback threw (they never signal completion, so their place
  stays taken), the remaining completion order, the state of the run and the first
  exception that escaped.  One step is the completion of one task in flight: the
  worker's callback runs; if it throws, nothing more happens in this step; otherwise
  the drain function is called if nothing is pending or in flight, and the next
  pending task is started if there is room.  A process that dies of the exception
  stops at some state on the way.
\<close>

record qstate =
  q_pending :: "task list"
  q_active :: "task list"
  q_stuck :: nat
  q_order :: "nat list"
  q_world :: world
  q_thrown :: "err option"

definition quiescent :: "qstate \<Rightarrow> bool" where
  "quiescent s = (q_active s = [])"

definition queue_step ::
  "nat \<Rightarrow> (task \<Rightarrow> world \<Rightarrow> outcome) \<Rightarrow> (world \<Rightarrow> world) \<Rightarrow> qstate \<Rightarrow> qstate" where
  "queue_step maxc work dr s =
     (if quiescent s then s
      else
        let i = (case q_order s of [] \<Rightarrow> 0 | k # ks \<Rightarrow> k mod length (q_active s));
            item = q_active s ! i;
            rest = take i (q_active s) @ drop (Suc i) (q_active s);
            order = tl (q_order s)
        in case work item (q_world s) of
             (w1, Some e) \<Rightarrow>
               s\<lparr>q_active := rest, q_stuck := Suc (q_stuck s), q_order := order, q_world := w1,
                 q_thrown := (case q_thrown s of None \<Rightarrow> Some e | Some e0 \<Rightarrow> Some e0)\<rparr>
           | (w1, None) \<Rightarrow>
               let w2 = (if q_pending s = [] \<and> rest = [] \<and> q_stuck s = 0 then dr w1 else w1) in
               if q_pending s \<noteq> [] \<and> length rest + q_stuck s < maxc
               then s\<lparr>q_pending := tl (q_pending s), q_active := rest @ [hd (q_pending s)],
                      q_order := order, q_world := w2\<rparr>
               else s\<lparr>q_active := rest, q_order := order, q_world := w2\<rparr>)"

definition queue_size :: "qstate \<Rightarrow> nat" where
  "queue_size s = length (q_pending s) + length (q_active s)"

function run_queue ::
  "nat \<Rightarrow> (task \<Rightarrow> world \<Rightarrow> outcome) \<Rightarrow> (world \<Rightarrow> world) \<Rightarrow> qstate \<Rightarrow> qstate" where
  "run_queue maxc work dr s =
     (if quiescent s then s else run_queue maxc work dr (queue_step maxc work dr s))"
  by pat_completeness auto
termination
proof (relation "measure (\<lambda>(maxc, work, dr, s). queue_size s)")
  show "wf (measure (\<lambda>(maxc, work, dr, s). queue_size s))"
    by simp
next
  fix maxc :: nat and work :: "task \<Rightarrow> world \<Rightarrow> outcome" and dr :: "world \<Rightarrow> world"
    and s :: qstate
  assume "\<not> quiescent s"
  then have "queue_size (queue_step maxc work dr s) < queue_size s"
    by (cases "q_active s")
      (auto simp: quiescent_def queue_step_def queue_size_def Let_def
        split: prod.splits option.splits list.splits)
  then show "((maxc, work, dr, queue_step maxc work dr s), (maxc, work, dr, s))
      \<in> measure (\<lambda>(maxc, work, dr, s). queue_size s)"
    by simp
qed

declare run_queue.simps [simp del]

text \<open>The queue after the pushes of \<open>_queueRollups\<close>: the first \<open>maxConcurrent\<close> tasks are
  in flight, the others wait.\<close>

definition start_queue :: "nat \<Rightarrow> nat list \<Rightarrow> task list \<Rightarrow> world \<Rightarrow> qstate" where
  "start_queue maxc order tasks w =
     \<lparr>q_pending = drop maxc tasks, q_active = take maxc tasks, q_stuck = 0, q_order = order,
      q_world = w, q_thrown = None\<rparr>"

definition compileRollups ::
  "shaker \<Rightarrow> shaker_core \<Rightarrow> environment \<Rightarrow> metadata \<Rightarrow> world \<Rightarrow> outcome" where
  "compileRollups sh c env md w =
     (let p = queueRollups sh c (mime env) md ([], heap w);
          s = run_queue (sh_parallel sh) (worker sh env) (drain c md)
                (start_queue (sh_parallel sh) (completion_order env) (fst p) (w\<lparr>heap := snd p\<rparr>))
      in (q_world s, q_thrown s))"

subsection \<open>Linting and running\<close>

text \<open>The callback given to \<open>csslint\<close>: its result is the error of the task, if any.\<close>

definition lint_callback :: "lint_blob \<Rightarrow> err option" where
  "lint_callback b = (if csslint b \<noteq> [] then Some ''[SHAKER] - Aborting'' else None)"

text \<open>Gear ends the chain with the first error a callback returns.\<close>

fun first_error :: "err option list \<Rightarrow> err option" where
  "first_error [] = None"
| "first_error (None # es) = first_error es"
| "first_error (Some e # es) = Some e"

definition lintFiles ::
  "shaker_core \<Rightarrow> environment \<Rightarrow> (world \<Rightarrow> outcome) \<Rightarrow> world \<Rightarrow> outcome" where
  "lintFiles c env cb w =
     (let filtered = filterFiles (mime env) (getFiles c) True in
      if length (css filtered) > 0 then
        (case gear_csslint env (css filtered) of
           Inl e \<Rightarrow> (w, None)
         | Inr blobs \<Rightarrow>
             (case first_error (map lint_callback blobs) of
                Some e \<Rightarrow> (w, None)
              | None \<Rightarrow> cb w))
      else (w, None))"

definition runTask ::
  "shaker \<Rightarrow> shaker_core \<Rightarrow> environment \<Rightarrow> metadata \<Rightarrow> world \<Rightarrow> outcome" where
  "runTask sh c env md w =
     (if sh_task sh = DEFAULT_TASK
      then (let w1 = w\<lparr>heap := rename c md (heap w)\<rparr>;
                w2 = writeMeta c md w1
            in (callback (CbDone md (heap w2)) w2, None))
      else compileRollups sh c env md w)"

definition start :: "store \<Rightarrow> world" where
  "start h = \<lparr>heap = h, builds = [], meta_writes = [], callbacks = []\<rparr>"

definition run :: "shaker \<Rightarrow> shaker_core \<Rightarrow> environment \<Rightarrow> outcome" where
  "run sh c env =
     (if \<not> isMojitApp c then (callback (CbError ''ERROR'') (start (snd (core_run c))), None)
      else
        let md = fst (core_run c); w = start (snd (core_run c)) in
        if sh_lint sh then lintFiles c env (runTask sh c env md) w
        else runTask sh c env md w)"

subsection \<open>An example application\<close>

text \<open>One mojit with one action and one application-level action.  The store holds the
  core files at 0, two images at 1, a dimension with a script, a style sheet and an
  image at 2, a client list at 3, a dimension with only an image at 4 and an empty
  client list at 5.  Gear writes every rollup under the name it is given.\<close>

definition cfg_ex :: config where
  "cfg_ex = \<lparr>cfg_root = ''/static/'', cfg_name = None, cfg_encoding = None, cfg_other = []\<rparr>"

definition sh_ex :: shaker where
  "sh_ex = \<lparr>sh_task = ''write'', sh_compiled_dir = ''assets/compiled/'', sh_images = True,
            sh_parallel = 2, sh_delay = 0, sh_lint = False, sh_minify = True, sh_strip = None,
            sh_config = cfg_ex\<rparr>"

definition md_ex :: metadata where
  "md_ex = \<lparr>core = 0,
            mojits = [(''m'', [(''*'', \<lparr>shaken = [(''common'', 2)], client = 3\<rparr>)])],
            app = [(''index'', \<lparr>shaken = [(''common'', 4)], client = 5\<rparr>)],
            images = 1\<rparr>"

definition h_ex :: store where
  "h_ex = (\<lambda>a. [])(0 := [''c.js''], 1 := [''i/a.png'', ''b.png''],
            2 := [''a.js'', ''b.css'', ''c.png''], 3 := [''v.html'', ''x.js''], 4 := [''z.png''])"

definition c_ex :: shaker_core where
  "c_ex = \<lparr>isMojitApp = True, core_run = (md_ex, h_ex), getFiles = [''a.js''],
           getURL = (\<lambda>file. ''/static/'' @ file), getAppRoot = ''/app''\<rparr>"

fun chain_name :: "gear_step list \<Rightarrow> string" where
  "chain_name [] = []"
| "chain_name (GearTask t (Some cfg) # steps) = (case cfg_name cfg of Some n \<Rightarrow> n | None \<Rightarrow> [])"
| "chain_name (step # steps) = chain_name steps"

definition env_ex :: environment where
  "env_ex = \<lparr>mime = mime_lookup,
             gear_run = (\<lambda>chain. Inr \<lparr>res_url = None, res_name = chain_name chain,
                                       res_skipped = False\<rparr>),
             gear_csslint = (\<lambda>fs. Inr []),
             match_view = (\<lambda>file. None),
             json_stringify = (\<lambda>text. text),
             completion_order = [1, 0, 1]\<rparr>"

text \<open>The same environment, except that gear fails on the core rollup.\<close>

definition env_fail :: environment where
  "env_fail = env_ex\<lparr>gear_run :=
     (\<lambda>chain. if chain_name chain = ''assets/compiled/core_{checksum}.js''
              then Inl ''EIO'' else gear_run env_ex chain)\<rparr>"

subsection \<open>The leaves in planning order\<close>

text \<open>
  The loops of \<open>_queueRollups\<close> visit one client list and the dimension lists of every
  action.  For the proofs the visits are listed: a leaf is a client list (with the
  name and base of its rollup) or a dimension list (with the stem of its rollup
  names), and the tasks pushed for a leaf depend on its content only.
\<close>

datatype leaf = ClientLeaf string string addr | DimLeaf string addr

fun leaf_addr :: "leaf \<Rightarrow> addr" where
  "leaf_addr (ClientLeaf name base a) = a"
| "leaf_addr (DimLeaf name a) = a"

definition dim_tasks :: "shaker \<Rightarrow> (string \<Rightarrow> string) \<Rightarrow> string \<Rightarrow> addr \<Rightarrow> string list \<Rightarrow> task list" where
  "dim_tasks sh lk name a content =
     (if content = [] then []
      else (if js (filterFiles lk content False) \<noteq> []
            then [\<lparr>object = new_Rollup (sh_compiled_dir sh @ name @ ''.js'')
                               (map file_name (js (filterFiles lk content False))),
                   files = a\<rparr>]
            else [])
         @ (if css (filterFiles lk content False) \<noteq> []
            then [\<lparr>object = new_Rollup (sh_compiled_dir sh @ name @ ''.css'')
                               (map file_name (css (filterFiles lk content False))),
                   files = a\<rparr>]
            else []))"

fun leaf_tasks :: "shaker \<Rightarrow> (string \<Rightarrow> string) \<Rightarrow> leaf \<Rightarrow> string list \<Rightarrow> task list" where
  "leaf_tasks sh lk (ClientLeaf name base a) content =
     (if content = [] then []
      else [\<lparr>object = new_ClientRollup name base content, files = a\<rparr>])"
| "leaf_tasks sh lk (DimLeaf name a) content = dim_tasks sh lk name a content"

fun queue_leaf :: "shaker \<Rightarrow> (string \<Rightarrow> string) \<Rightarrow> leaf \<Rightarrow> plan \<Rightarrow> plan" where
  "queue_leaf sh lk (ClientLeaf name base a) p = queue_client name base a p"
| "queue_leaf sh lk (DimLeaf name a) p = queue_dim sh lk name ([], a) p"

definition mojit_action_leaves :: "shaker \<Rightarrow> shaker_core \<Rightarrow> string \<Rightarrow> string \<times> view \<Rightarrow> leaf list" where
  "mojit_action_leaves sh c mojit av =
     ClientLeaf (sh_compiled_dir sh @ ''client_'' @ mojit @ ''_{checksum}.js'') (getAppRoot c)
       (client (snd av))
     # map (\<lambda>d. DimLeaf (mojit @ ''_'' @ replace_star (fst av) @ ''_{checksum}'') (snd d))
         (shaken (snd av))"

definition app_action_leaves :: "shaker \<Rightarrow> shaker_core \<Rightarrow> string \<times> view \<Rightarrow> leaf list" where
  "app_action_leaves sh c av =
     ClientLeaf (sh_compiled_dir sh @ ''appclient_'' @ fst av @ ''_{checksum}.js'') (getAppRoot c)
       (client (snd av))
     # map (\<lambda>d. DimLeaf (''app_'' @ replace_star (fst av) @ ''_{checksum}'') (snd d))
         (shaken (snd av))"

definition plan_leaves :: "shaker \<Rightarrow> shaker_core \<Rightarrow> metadata \<Rightarrow> leaf list" where
  "plan_leaves sh c md =
     concat (map (\<lambda>m. concat (map (mojit_action_leaves sh c (fst m)) (snd m))) (mojits md))
     @ concat (map (app_action_leaves sh c) (app md))"

definition image_tasks :: "metadata \<Rightarrow> string list \<Rightarrow> task list" where
  "image_tasks md content =
     map (\<lambda>image. \<lparr>object = Image (IMAGES_DIR @ basename image) image, files = images md\<rparr>) content"

definition core_task :: "shaker \<Rightarrow> metadata \<Rightarrow> string list \<Rightarrow> task" where
  "core_task sh md content =
     \<lparr>object = new_Rollup (sh_compiled_dir sh @ ''core_{checksum}.js'') content, files = core md\<rparr>"

definition views :: "metadata \<Rightarrow> (string \<times> view) list" where
  "views md = concat (map snd (mojits md)) @ app md"

definition view_addrs :: "view \<Rightarrow> addr list" where
  "view_addrs v = client v # map snd (shaken v)"

definition leaf_addrs :: "metadata \<Rightarrow> addr list" where
  "leaf_addrs md = core md # images md # concat (map (\<lambda>av. view_addrs (snd av)) (views md))"

text \<open>The arrays renamed by \<open>_rename\<close>, in the order of its loops.\<close>

definition rename_addrs :: "metadata \<Rightarrow> addr list" where
  "rename_addrs md =
     concat (map (\<lambda>av. map snd (shaken (snd av)) @ [client (snd av)]) (views md)) @ [core md]"

subsection \<open>Builds, sinks and the invariant of the queue\<close>

text \<open>The error of the build of a task, if it fails, and the URL it produces otherwise;
  the URLs that a list of completed builds has pushed to one array; the file that
  \<open>_writeMeta\<close> writes.\<close>

definition build_error :: "shaker \<Rightarrow> environment \<Rightarrow> task \<Rightarrow> err option" where
  "build_error sh env t =
     (case build env (build_options sh) (object t) of Inl e \<Rightarrow> Some e | Inr r \<Rightarrow> None)"

definition built_url :: "shaker \<Rightarrow> environment \<Rightarrow> task \<Rightarrow> string" where
  "built_url sh env t =
     (case build env (build_options sh) (object t) of Inl e \<Rightarrow> [] | Inr r \<Rightarrow> fst r)"

definition pushed :: "shaker \<Rightarrow> environment \<Rightarrow> addr \<Rightarrow> task list \<Rightarrow> string list" where
  "pushed sh env a ts =
     map (built_url sh env) (filter (\<lambda>t. files t = a \<and> build_error sh env t = None) ts)"

definition META_FILE :: "shaker_core \<Rightarrow> string" where
  "META_FILE c = getAppRoot c @ ''/autoload/compiled/shaker-meta.common.js''"

text \<open>
  What holds of every state of the queue of a run, for the planned tasks and the store
  \<open>h1\<close> that planning leaves: every task is completed, in flight or pending; every
  array holds what planning left followed by the URLs pushed to it so far; an
  exception is the error of a completed build; the drain function has run once if
  nothing is pending or in flight after some build and no exception escaped, and
  not at all otherwise; and tasks wait only while others are in flight or after an
  exception.
\<close>

definition queue_inv ::
  "shaker \<Rightarrow> environment \<Rightarrow> shaker_core \<Rightarrow> metadata \<Rightarrow> nat \<Rightarrow> store \<Rightarrow> task list \<Rightarrow> qstate
     \<Rightarrow> bool" where
  "queue_inv sh env c md maxc h1 tasks s =
     (mset (builds (q_world s)) + mset (q_active s) + mset (q_pending s) = mset tasks
      \<and> (\<forall>a. heap (q_world s) a = h1 a @ pushed sh env a (builds (q_world s)))
      \<and> (q_thrown s = None \<longrightarrow> (\<forall>t \<in> set (builds (q_world s)). build_error sh env t = None))
      \<and> (\<forall>e. q_thrown s = Some e \<longrightarrow>
             (\<exists>t \<in> set (builds (q_world s)). build_error sh env t = Some e))
      \<and> (q_stuck s = 0 \<longleftrightarrow> q_thrown s = None)
      \<and> (if q_active s = [] \<and> q_pending s = [] \<and> q_thrown s = None \<and> builds (q_world s) \<noteq> []
          then callbacks (q_world s) = [CbDone md (heap (q_world s))]
             \<and> meta_writes (q_world s) = [(META_FILE c, md, heap (q_world s))]
          else callbacks (q_world s) = [] \<and> meta_writes (q_world s) = [])
      \<and> (0 < maxc \<and> q_pending s \<noteq> [] \<longrightarrow> q_active s \<noteq> [] \<or> q_thrown s \<noteq> None))"

text \<open>What holds while \<open>_queueRollups\<close> runs, for the store \<open>h\<close> it started from: every
  array is as it was or empty, and every task pushed so far has an emptied sink.\<close>

definition plan_ok :: "store \<Rightarrow> plan \<Rightarrow> bool" where
  "plan_ok h p =
     ((\<forall>a. snd p a = h a \<or> snd p a = [])
      \<and> (\<forall>t \<in> set (fst p). snd p (files t) = []))"

text \<open>
  The queued items with a given sink, in the order of queueing, and the items that
  \<open>_queueRollups\<close> queues for one image and for one dimension list, written out with
  the files they are given: the item of an image reads that image; of the two
  rollups of a dimension list, the one named \<open>.js\<close> gets the files of the list that
  are inferred as JavaScript and the one named \<open>.css\<close> those inferred as CSS, each in
  the order of the list, and neither is queued without files.
\<close>

definition sink_tasks :: "addr \<Rightarrow> task list \<Rightarrow> task list" where
  "sink_tasks a ts = filter (\<lambda>t. files t = a) ts"

definition image_item :: "metadata \<Rightarrow> string \<Rightarrow> task" where
  "image_item md file =
     \<lparr>object = Image (IMAGES_DIR @ basename file) file, files = images md\<rparr>"

definition dim_items :: "shaker \<Rightarrow> (string \<Rightarrow> string) \<Rightarrow> string \<Rightarrow> addr \<Rightarrow> string list \<Rightarrow> task list"
  where
  "dim_items sh lk stem a content =
     (if filter (\<lambda>f. lk f = ''application/javascript'') content = [] then []
      else [\<lparr>object = new_Rollup (sh_compiled_dir sh @ stem @ ''.js'')
                         (filter (\<lambda>f. lk f = ''application/javascript'') content),
              files = a\<rparr>])
     @ (if filter (\<lambda>f. lk f = ''text/css'') content = [] then []
        else [\<lparr>object = new_Rollup (sh_compiled_dir sh @ stem @ ''.css'')
                           (filter (\<lambda>f. lk f = ''text/css'') content),
                files = a\<rparr>])"

text \<open>Five of the tasks of the example.\<close>

definition five_tasks :: "task list" where
  "five_tasks =
     [\<lparr>object = Image ''assets/images/a.png'' ''i/a.png'', files = 1\<rparr>,
      \<lparr>object = Image ''assets/images/b.png'' ''b.png'', files = 1\<rparr>,
      \<lparr>object = Rollup ''assets/compiled/core_{checksum}.js''
                  [\<lparr>item_name = ''c.js'', item_sync = True\<rparr>], files = 0\<rparr>,
      \<lparr>object = ClientRollup ''assets/compiled/client_m_{checksum}.js'' ''/app''
                  [\<lparr>item_name = ''v.html'', item_sync = True\<rparr>,
                   \<lparr>item_name = ''x.js'', item_sync = True\<rparr>], files = 3\<rparr>,
      \<lparr>object = Rollup ''assets/compiled/m_default_{checksum}.js''
                  [\<lparr>item_name = ''a.js'', item_sync = True\<rparr>], files = 2\<rparr>]"

section \<open>Properties\<close>

subsection \<open>The classifier\<close>

lemma filterFiles_fold:
  "fold (filterFiles_step lookup w) fs acc =
     \<lparr>js = js acc @ map (wrap w) (filter (\<lambda>f. lookup f = ''application/javascript'') fs),
      css = css acc @ map (wrap w)
        (filter (\<lambda>f. lookup f \<noteq> ''application/javascript'' \<and> lookup f = ''text/css'') fs)\<rparr>"
  by (induction fs arbitrary: acc) (simp_all add: filterFiles_step_def Let_def)

lemma filterFiles_eq:
  "filterFiles lookup fs w =
     \<lparr>js = map (wrap w) (filter (\<lambda>f. lookup f = ''application/javascript'') fs),
      css = map (wrap w) (filter (\<lambda>f. lookup f = ''text/css'') fs)\<rparr>"
proof -
  have "filter (\<lambda>f. lookup f \<noteq> ''application/javascript'' \<and> lookup f = ''text/css'') fs
      = filter (\<lambda>f. lookup f = ''text/css'') fs"
    by (rule filter_cong) auto
  then show ?thesis
    by (simp add: filterFiles_def filterFiles_fold)
qed

text \<open>
  Claim C6.  For every list of file paths and every content-type inference, the
  classifier returns the paths inferred as JavaScript in its JS group and the paths
  inferred as CSS in its CSS group, each in input order (bare, or each wrapped when
  \<open>syncWrap\<close> is set), and every other path in neither group; its result depends on
  nothing but its arguments (it neither reads nor writes the store).  With the
  extension table, classifying a.js, b.css, c.png gives the JS group a.js and the
  CSS group b.css.
\<close>

theorem filterFiles_classifies:
  "js (filterFiles lk fs syncWrap)
     = map (wrap syncWrap) (filter (\<lambda>f. lk f = ''application/javascript'') fs)
   \<and> css (filterFiles lk fs syncWrap)
     = map (wrap syncWrap) (filter (\<lambda>f. lk f = ''text/css'') fs)
   \<and> filterFiles mime_lookup [''a.js'', ''b.css'', ''c.png''] False
     = \<lparr>js = [Plain ''a.js''], css = [Plain ''b.css'']\<rparr>"
  by (simp add: filterFiles_eq wrap_def mime_lookup_def extension_def)

subsection \<open>The planner\<close>

lemma fold_concat: "fold f (concat xss) p = fold (fold f) xss p"
  by (induction xss arbitrary: p) simp_all

lemma fold_push: "fold (\<lambda>x. push (g x)) xs p = (fst p @ map g xs, snd p)"
  by (induction xs arbitrary: p) (simp_all add: push_def)

lemma queue_images_eq:
  "queue_images md p = (fst p @ image_tasks md (snd p (images md)), (snd p)(images md := []))"
  by (simp add: queue_images_def fold_push clear_def image_tasks_def)

lemma queue_core_eq:
  "queue_core sh md p = (fst p @ [core_task sh md (snd p (core md))], (snd p)(core md := []))"
  by (simp add: queue_core_def push_def clear_def core_task_def)

lemma queue_leaf_eq:
  "queue_leaf sh lk l p
     = (fst p @ leaf_tasks sh lk l (snd p (leaf_addr l)), (snd p)(leaf_addr l := []))"
proof (cases l)
  case (ClientLeaf name base a)
  then show ?thesis
    by (cases p) (auto simp: queue_client_def push_def clear_def)
next
  case (DimLeaf name a)
  then show ?thesis
    by (cases p) (auto simp: queue_dim_def dim_tasks_def push_def clear_def Let_def)
qed

lemma queue_leaf_dim: "(\<lambda>d. queue_leaf sh lk (DimLeaf name (snd d))) = queue_dim sh lk name"
  by (intro ext) (simp add: queue_dim_def)

lemma queue_mojit_action_leaves:
  "queue_mojit_action sh c lk mojit av p
     = fold (queue_leaf sh lk) (mojit_action_leaves sh c mojit av) p"
  by (simp add: queue_mojit_action_def mojit_action_leaves_def fold_map comp_def queue_leaf_dim)

lemma queue_app_action_leaves:
  "queue_app_action sh c lk av p = fold (queue_leaf sh lk) (app_action_leaves sh c av) p"
  by (simp add: queue_app_action_def app_action_leaves_def fold_map comp_def queue_leaf_dim)

lemma queue_mojit_leaves:
  "queue_mojit sh c lk m p
     = fold (queue_leaf sh lk) (concat (map (mojit_action_leaves sh c (fst m)) (snd m))) p"
proof -
  have "queue_mojit_action sh c lk (fst m) = (\<lambda>av. fold (queue_leaf sh lk) (mojit_action_leaves sh c (fst m) av))"
    by (intro ext) (rule queue_mojit_action_leaves)
  then show ?thesis
    by (simp add: queue_mojit_def fold_concat fold_map comp_def)
qed

lemma queueRollups_leaves:
  "queueRollups sh c lk md p
     = fold (queue_leaf sh lk) (plan_leaves sh c md)
         (queue_core sh md (if sh_images sh then queue_images md p else p))"
proof -
  have m: "queue_mojit sh c lk
      = (\<lambda>m. fold (queue_leaf sh lk) (concat (map (mojit_action_leaves sh c (fst m)) (snd m))))"
    by (intro ext) (rule queue_mojit_leaves)
  have a: "queue_app_action sh c lk = (\<lambda>av. fold (queue_leaf sh lk) (app_action_leaves sh c av))"
    by (intro ext) (rule queue_app_action_leaves)
  show ?thesis
    unfolding queueRollups_def plan_leaves_def m a
    by (simp add: fold_concat fold_map comp_def)
qed

lemma fold_leaves_snd:
  "snd (fold (queue_leaf sh lk) ls p)
     = (\<lambda>a. if a \<in> leaf_addr ` set ls then [] else snd p a)"
  by (induction ls arbitrary: p) (auto simp: queue_leaf_eq)

lemma fold_leaves_fst:
  "distinct (map leaf_addr ls) \<Longrightarrow>
   fst (fold (queue_leaf sh lk) ls p)
     = fst p @ concat (map (\<lambda>l. leaf_tasks sh lk l (snd p (leaf_addr l))) ls)"
proof (induction ls arbitrary: p)
  case Nil
  then show ?case by simp
next
  case (Cons l ls)
  have eq: "map (\<lambda>l'. leaf_tasks sh lk l' (snd (queue_leaf sh lk l p) (leaf_addr l'))) ls
      = map (\<lambda>l'. leaf_tasks sh lk l' (snd p (leaf_addr l'))) ls"
  proof (intro map_cong refl)
    fix l' assume "l' \<in> set ls"
    moreover from Cons.prems have "leaf_addr l \<notin> leaf_addr ` set ls"
      by simp
    ultimately have "leaf_addr l' \<noteq> leaf_addr l"
      by (metis imageI)
    then show "leaf_tasks sh lk l' (snd (queue_leaf sh lk l p) (leaf_addr l'))
        = leaf_tasks sh lk l' (snd p (leaf_addr l'))"
      by (simp add: queue_leaf_eq)
  qed
  from Cons.prems have "distinct (map leaf_addr ls)"
    by simp
  then have "fst (fold (queue_leaf sh lk) ls (queue_leaf sh lk l p))
      = fst (queue_leaf sh lk l p)
        @ concat (map (\<lambda>l'. leaf_tasks sh lk l' (snd (queue_leaf sh lk l p) (leaf_addr l'))) ls)"
    by (rule Cons.IH)
  also have "\<dots> = fst p @ leaf_tasks sh lk l (snd p (leaf_addr l))
        @ concat (map (\<lambda>l'. leaf_tasks sh lk l' (snd p (leaf_addr l'))) ls)"
    unfolding eq by (simp add: queue_leaf_eq)
  finally show ?case
    by simp
qed

lemma leaf_addr_plan_leaves:
  "map leaf_addr (plan_leaves sh c md) = concat (map (\<lambda>av. view_addrs (snd av)) (views md))"
proof -
  have m: "map leaf_addr (mojit_action_leaves sh c mojit av) = view_addrs (snd av)" for mojit av
    by (simp add: mojit_action_leaves_def view_addrs_def comp_def)
  have a: "map leaf_addr (app_action_leaves sh c av) = view_addrs (snd av)" for av
    by (simp add: app_action_leaves_def view_addrs_def comp_def)
  have c: "map leaf_addr (concat (map (\<lambda>m. concat (map (mojit_action_leaves sh c (fst m)) (snd m))) ms))
      = concat (map (\<lambda>av. view_addrs (snd av)) (concat (map snd ms)))" for ms
    by (induction ms) (simp_all add: map_concat comp_def m)
  have d: "map leaf_addr (concat (map (app_action_leaves sh c) avs))
      = concat (map (\<lambda>av. view_addrs (snd av)) avs)" for avs
    by (induction avs) (simp_all add: a)
  show ?thesis
    unfolding plan_leaves_def views_def by (simp only: map_append c d concat_append)
qed

lemma fold_leaves_prefix: "\<exists>ts. fst (fold (queue_leaf sh lk) ls p) = fst p @ ts"
proof (induction ls arbitrary: p)
  case Nil
  then show ?case by simp
next
  case (Cons l ls)
  from Cons.IH [of "queue_leaf sh lk l p"] show ?case
    by (auto simp: queue_leaf_eq)
qed

lemma plan_snd:
  "snd (queueRollups sh c lk md p)
     = (\<lambda>a. if a = core md \<or> (sh_images sh \<and> a = images md)
                  \<or> a \<in> leaf_addr ` set (plan_leaves sh c md)
             then [] else snd p a)"
  by (auto simp: queueRollups_leaves fold_leaves_snd queue_core_eq queue_images_eq)

lemma plan_fst:
  assumes "distinct (leaf_addrs md)"
  shows "fst (queueRollups sh c lk md p)
     = fst p @ (if sh_images sh then image_tasks md (snd p (images md)) else [])
       @ [core_task sh md (snd p (core md))]
       @ concat (map (\<lambda>l. leaf_tasks sh lk l (snd p (leaf_addr l))) (plan_leaves sh c md))"
proof -
  let ?p0 = "queue_core sh md (if sh_images sh then queue_images md p else p)"
  from assms have d: "distinct (map leaf_addr (plan_leaves sh c md))"
    and ci: "core md \<noteq> images md"
    and nc: "core md \<notin> leaf_addr ` set (plan_leaves sh c md)"
    and ni: "images md \<notin> leaf_addr ` set (plan_leaves sh c md)"
    by (simp_all add: leaf_addrs_def leaf_addr_plan_leaves flip: set_map)
  have eq: "map (\<lambda>l. leaf_tasks sh lk l (snd ?p0 (leaf_addr l))) (plan_leaves sh c md)
      = map (\<lambda>l. leaf_tasks sh lk l (snd p (leaf_addr l))) (plan_leaves sh c md)"
  proof (intro map_cong refl)
    fix l assume "l \<in> set (plan_leaves sh c md)"
    with nc ni have "leaf_addr l \<noteq> core md" "leaf_addr l \<noteq> images md"
      by (metis imageI)+
    then show "leaf_tasks sh lk l (snd ?p0 (leaf_addr l)) = leaf_tasks sh lk l (snd p (leaf_addr l))"
      by (simp add: queue_core_eq queue_images_eq)
  qed
  have "fst (queueRollups sh c lk md p)
      = fst ?p0 @ concat (map (\<lambda>l. leaf_tasks sh lk l (snd ?p0 (leaf_addr l))) (plan_leaves sh c md))"
    unfolding queueRollups_leaves by (rule fold_leaves_fst [OF d])
  also have "fst ?p0 = fst p @ (if sh_images sh then image_tasks md (snd p (images md)) else [])
       @ [core_task sh md (snd p (core md))]"
    using ci by (simp add: queue_core_eq queue_images_eq)
  finally show ?thesis
    unfolding eq by simp
qed

lemma files_leaf_tasks: "t \<in> set (leaf_tasks sh lk l content) \<Longrightarrow> files t = leaf_addr l"
  by (cases l) (auto simp: dim_tasks_def split: if_splits)

lemma filter_concat_other:
  "(\<And>l t. l \<in> set ls \<Longrightarrow> t \<in> set (F l) \<Longrightarrow> k t \<noteq> a) \<Longrightarrow>
   filter (\<lambda>t. k t = a) (concat (map F ls)) = []"
  by (induction ls) (auto simp: filter_empty_conv)

lemma filter_concat_distinct:
  assumes "distinct (map g ls)" and "l \<in> set ls"
    and "\<And>l' t. t \<in> set (F l') \<Longrightarrow> k t = g l'"
  shows "filter (\<lambda>t. k t = g l) (concat (map F ls)) = F l"
  using assms(1,2)
proof (induction ls)
  case Nil
  then show ?case by simp
next
  case (Cons x xs)
  show ?case
  proof (cases "x = l")
    case True
    have "filter (\<lambda>t. k t = g l) (concat (map F xs)) = []"
    proof (rule filter_concat_other)
      fix l' t assume "l' \<in> set xs" "t \<in> set (F l')"
      with Cons.prems True assms(3) show "k t \<noteq> g l"
        by (metis distinct.simps(2) imageI list.simps(9) set_map)
    qed
    moreover have "filter (\<lambda>t. k t = g l) (F l) = F l"
      using assms(3) by (simp add: filter_id_conv)
    ultimately show ?thesis
      using True by simp
  next
    case False
    with Cons.prems have "l \<in> set xs" "g x \<noteq> g l"
      by auto
    moreover from this assms(3) have "filter (\<lambda>t. k t = g l) (F x) = []"
      by (auto simp: filter_empty_conv)
    ultimately show ?thesis
      using Cons by simp
  qed
qed

lemma sink_tasks_leaf:
  assumes "distinct (leaf_addrs md)" and "l \<in> set (plan_leaves sh c md)"
  shows "filter (\<lambda>t. files t = leaf_addr l) (fst (queueRollups sh c lk md ([], h)))
     = leaf_tasks sh lk l (h (leaf_addr l))"
proof -
  from assms(1) have d: "distinct (map leaf_addr (plan_leaves sh c md))"
    and nc: "core md \<notin> leaf_addr ` set (plan_leaves sh c md)"
    and ni: "images md \<notin> leaf_addr ` set (plan_leaves sh c md)"
    by (simp_all add: leaf_addrs_def leaf_addr_plan_leaves flip: set_map)
  from nc ni assms(2) have ne: "core md \<noteq> leaf_addr l" "images md \<noteq> leaf_addr l"
    by (metis imageI)+
  have "filter (\<lambda>t. files t = leaf_addr l)
      (concat (map (\<lambda>l. leaf_tasks sh lk l (h (leaf_addr l))) (plan_leaves sh c md)))
      = leaf_tasks sh lk l (h (leaf_addr l))"
    using d assms(2) by (rule filter_concat_distinct) (rule files_leaf_tasks)
  then show ?thesis
    using ne by (auto simp: plan_fst [OF assms(1)] image_tasks_def core_task_def filter_empty_conv)
qed

lemma set_plan_leaves:
  "set (plan_leaves sh c md)
     = (\<Union>m\<in>set (mojits md). \<Union>av\<in>set (snd m). set (mojit_action_leaves sh c (fst m) av))
       \<union> (\<Union>av\<in>set (app md). set (app_action_leaves sh c av))"
  by (simp add: plan_leaves_def)




text \<open>The plan of the example: six tasks, and every array visited is empty.\<close>

lemma plan_ex:
  "fst (queueRollups sh_ex c_ex mime_lookup md_ex ([], h_ex))
     = [\<lparr>object = Image ''assets/images/a.png'' ''i/a.png'', files = 1\<rparr>,
        \<lparr>object = Image ''assets/images/b.png'' ''b.png'', files = 1\<rparr>,
        \<lparr>object = Rollup ''assets/compiled/core_{checksum}.js''
                    [\<lparr>item_name = ''c.js'', item_sync = True\<rparr>], files = 0\<rparr>,
        \<lparr>object = ClientRollup ''assets/compiled/client_m_{checksum}.js'' ''/app''
                    [\<lparr>item_name = ''v.html'', item_sync = True\<rparr>,
                     \<lparr>item_name = ''x.js'', item_sync = True\<rparr>], files = 3\<rparr>,
        \<lparr>object = Rollup ''assets/compiled/m_default_{checksum}.js''
                    [\<lparr>item_name = ''a.js'', item_sync = True\<rparr>], files = 2\<rparr>,
        \<lparr>object = Rollup ''assets/compiled/m_default_{checksum}.css''
                    [\<lparr>item_name = ''b.css'', item_sync = True\<rparr>], files = 2\<rparr>]"
  by (simp add: queueRollups_def queue_mojit_def queue_mojit_action_def queue_app_action_def
      queue_dim_def queue_client_def queue_core_def queue_images_def push_def clear_def
      filterFiles_eq wrap_def mime_lookup_def extension_def basename_def IMAGES_DIR_def
      ASSETS_DIR_def new_Rollup_def new_ClientRollup_def sync_items_def
      sh_ex_def c_ex_def md_ex_def h_ex_def Let_def)

text \<open>
  Claim C5 (as amended).  For every metadata tree, planning queues the core rollup right
  after the image tasks (one per image when images are deployed, none otherwise), and
  its name is the configured compiled directory followed by \<open>core_{checksum}.js\<close>,
  with the placeholder unresolved.
\<close>

theorem core_bundle_template:
  "builder_name (object (fst (queueRollups sh c lk md ([], h))
      ! (if sh_images sh then length (h (images md)) else 0)))
     = sh_compiled_dir sh @ ''core_{checksum}.js''"
proof -
  let ?p0 = "queue_core sh md (if sh_images sh then queue_images md ([], h) else ([], h))"
  obtain ts where "fst (queueRollups sh c lk md ([], h)) = fst ?p0 @ ts"
    unfolding queueRollups_leaves using fold_leaves_prefix by blast
  then show ?thesis
    by (simp add: queue_core_eq queue_images_eq image_tasks_def core_task_def nth_append
        new_Rollup_def)
qed

text \<open>The claim as stated names the placeholder \<open>{hash}\<close>: in the example the core
  rollup is the third task, and its name is not the compiled directory followed by
  \<open>core_{hash}.js\<close>.\<close>

theorem core_bundle_hash_counterexample:
  "builder_name (object (fst (queueRollups sh_ex c_ex mime_lookup md_ex ([], h_ex)) ! 2))
     \<noteq> sh_compiled_dir sh_ex @ ''core_{hash}.js''"
  unfolding plan_ex by (simp add: sh_ex_def)



subsection \<open>Renaming for development\<close>

lemma fold_rename_list:
  "distinct as \<Longrightarrow>
   fold (rename_list c) as h = (\<lambda>a. if a \<in> set as then map (getURL c) (h a) else h a)"
proof (induction as arbitrary: h)
  case Nil
  then show ?case by simp
next
  case (Cons x xs)
  then show ?case
    by (auto simp: rename_list_def fun_eq_iff)
qed

lemma rename_action_fold:
  "rename_action c av h
     = fold (rename_list c) (map snd (shaken (snd av)) @ [client (snd av)]) h"
  by (simp add: rename_action_def fold_map comp_def)

lemma rename_fold: "rename c md h = fold (rename_list c) (rename_addrs md) h"
proof -
  have a: "rename_action c = (\<lambda>av. fold (rename_list c) (map snd (shaken (snd av)) @ [client (snd av)]))"
    by (intro ext) (simp add: rename_action_fold)
  have b: "fold (\<lambda>m. fold (rename_action c) (snd m)) ms h
      = fold (rename_action c) (concat (map snd ms)) h" for ms h
    by (simp add: fold_concat fold_map comp_def)
  show ?thesis
    unfolding rename_def rename_addrs_def views_def b
    by (simp add: a fold_concat fold_map comp_def)
qed

lemma mset_rename_addrs: "mset (rename_addrs md) + {#images md#} = mset (leaf_addrs md)"
proof -
  have "mset (concat (map (\<lambda>av. map snd (shaken (snd av)) @ [client (snd av)]) vs))
      = mset (concat (map (\<lambda>av. view_addrs (snd av)) vs))" for vs :: "(string \<times> view) list"
    by (induction vs) (simp_all add: view_addrs_def)
  then show ?thesis
    by (simp add: rename_addrs_def leaf_addrs_def)
qed

lemma rename_addrs_props:
  assumes "distinct (leaf_addrs md)"
  shows "distinct (rename_addrs md)" and "images md \<notin> set (rename_addrs md)"
    and "set (leaf_addrs md) = insert (images md) (set (rename_addrs md))"
proof -
  have m: "mset (images md # rename_addrs md) = mset (leaf_addrs md)"
    using mset_rename_addrs [of md] by simp
  with assms have "distinct (images md # rename_addrs md)"
    by (metis mset_eq_imp_distinct_iff)
  then show "distinct (rename_addrs md)" and "images md \<notin> set (rename_addrs md)"
    by simp_all
  from m have "set (images md # rename_addrs md) = set (leaf_addrs md)"
    by (rule mset_eq_setD)
  then show "set (leaf_addrs md) = insert (images md) (set (rename_addrs md))"
    by simp
qed

text \<open>
  Claim C3 (as amended).  For every metadata tree whose leaves are distinct arrays, a
  run of the default task ends without an exception, and afterwards the core list,
  every client list and every dimension list holds, position by position, the URL
  that \<open>getURL\<close> gives for the path that was there (so its length is unchanged); the
  images list is left as it was.  The callback is called once, with the metadata.
\<close>

theorem dev_rename:
  assumes "distinct (leaf_addrs md)" and "sh_task sh = DEFAULT_TASK"
  shows "snd (runTask sh c env md w) = None
    \<and> (\<forall>a \<in> set (leaf_addrs md). a \<noteq> images md \<longrightarrow>
          heap (fst (runTask sh c env md w)) a = map (getURL c) (heap w a))
    \<and> heap (fst (runTask sh c env md w)) (images md) = heap w (images md)
    \<and> callbacks (fst (runTask sh c env md w))
        = callbacks w @ [CbDone md (heap (fst (runTask sh c env md w)))]"
proof -
  note p = rename_addrs_props [OF assms(1)]
  have h: "heap (fst (runTask sh c env md w))
      = (\<lambda>a. if a \<in> set (rename_addrs md) then map (getURL c) (heap w a) else heap w a)"
    using assms(2) p(1)
    by (simp add: runTask_def writeMeta_def callback_def rename_fold fold_rename_list Let_def)
  have "snd (runTask sh c env md w) = None"
    using assms(2) by (simp add: runTask_def Let_def)
  moreover have "\<forall>a \<in> set (leaf_addrs md). a \<noteq> images md \<longrightarrow>
      heap (fst (runTask sh c env md w)) a = map (getURL c) (heap w a)"
    unfolding h p(3) by simp
  moreover have "heap (fst (runTask sh c env md w)) (images md) = heap w (images md)"
    unfolding h using p(2) by simp
  moreover have "callbacks (fst (runTask sh c env md w))
      = callbacks w @ [CbDone md (heap (fst (runTask sh c env md w)))]"
    using assms(2) by (simp add: runTask_def writeMeta_def callback_def Let_def)
  ultimately show ?thesis
    by blast
qed

text \<open>The claim as stated covers every leaf of the tree; the images of the example are
  not renamed.\<close>

theorem dev_rename_images_counterexample:
  "heap (fst (run (sh_ex\<lparr>sh_task := DEFAULT_TASK\<rparr>) c_ex env_ex)) (images md_ex)
     \<noteq> map (getURL c_ex) (snd (core_run c_ex) (images md_ex))"
  by (simp add: run_def runTask_def rename_def rename_action_def rename_list_def writeMeta_def
      callback_def start_def sh_ex_def c_ex_def md_ex_def h_ex_def Let_def)

theorem dev_rename_witness:
  "distinct (leaf_addrs md_ex) \<and> sh_task (sh_ex\<lparr>sh_task := DEFAULT_TASK\<rparr>) = DEFAULT_TASK
   \<and> snd (runTask (sh_ex\<lparr>sh_task := DEFAULT_TASK\<rparr>) c_ex env_ex md_ex (start h_ex)) = None
   \<and> heap (fst (runTask (sh_ex\<lparr>sh_task := DEFAULT_TASK\<rparr>) c_ex env_ex md_ex (start h_ex))) 2
       = [''/static/a.js'', ''/static/b.css'', ''/static/c.png'']
   \<and> heap (fst (runTask (sh_ex\<lparr>sh_task := DEFAULT_TASK\<rparr>) c_ex env_ex md_ex (start h_ex))) 1
       = [''i/a.png'', ''b.png'']"
proof -
  have d: "distinct (leaf_addrs md_ex)"
    by (simp add: leaf_addrs_def views_def view_addrs_def md_ex_def)
  have t: "sh_task (sh_ex\<lparr>sh_task := DEFAULT_TASK\<rparr>) = DEFAULT_TASK"
    by simp
  have m: "(2::nat) \<in> set (leaf_addrs md_ex)" "2 \<noteq> images md_ex" "images md_ex = 1"
    by (simp_all add: leaf_addrs_def views_def view_addrs_def md_ex_def)
  from dev_rename [OF d t, of c_ex env_ex "start h_ex"] m d t
  show ?thesis
    by (simp add: start_def h_ex_def c_ex_def)
qed

subsection \<open>The options of a build\<close>

text \<open>With a true \<open>bundleViews\<close> the callback does build the snippet; with the options of
  the worker it does not, and nothing that a build, the worker or a run does depends
  on what the snippet is made from.\<close>

lemma concat_callback_options:
  "concat_callback env (build_options sh)
     = (\<lambda>b. if mime env (fst b) = ''text/html'' then Inr [] else Inr (snd b))"
  by (rule ext) (simp add: concat_callback_def build_options_def)

lemma concat_callback_bundleViews:
  "opt_bundleViews opts = Some True \<Longrightarrow> mime env (fst b) = ''text/html'' \<Longrightarrow>
   concat_callback env opts b = view_snippet env b"
  by (simp add: concat_callback_def)

lemma build_chain_snippet_free:
  "build_chain (env\<lparr>match_view := m, json_stringify := j\<rparr>) (build_options sh) b
     = build_chain env (build_options sh) b"
  by (cases b) (simp_all add: concat_callback_options)

lemma build_snippet_free:
  "build (env\<lparr>match_view := m, json_stringify := j\<rparr>) (build_options sh) b
     = build env (build_options sh) b"
  by (simp add: build_def build_chain_snippet_free)

lemma worker_snippet_free:
  "worker sh (env\<lparr>match_view := m, json_stringify := j\<rparr>) = worker sh env"
  by (intro ext) (simp add: worker_def build_snippet_free)

lemma compileRollups_snippet_free:
  "compileRollups sh c (env\<lparr>match_view := m, json_stringify := j\<rparr>) md w
     = compileRollups sh c env md w"
  by (simp add: compileRollups_def worker_snippet_free)

lemma runTask_snippet_free:
  "runTask sh c (env\<lparr>match_view := m, json_stringify := j\<rparr>) md = runTask sh c env md"
  by (intro ext) (simp add: runTask_def compileRollups_snippet_free)

lemma lintFiles_snippet_free:
  "lintFiles c (env\<lparr>match_view := m, json_stringify := j\<rparr>) cb w = lintFiles c env cb w"
  by (simp add: lintFiles_def Let_def)

text \<open>
  Claim C10.  The options object that the worker of \<open>_compileRollups\<close> passes to every
  build has no \<open>bundleViews\<close> property.  So the chain that a client rollup hands to
  gear has a \<open>concat\<close> callback that replaces every HTML template by the empty string
  and passes every other blob through; the worker builds every item with these
  options; and the worker, \<open>_compileRollups\<close> and every run of \<open>Shaker.run\<close> are the
  same whatever the match of a view's file name and \<open>JSON.stringify\<close> give: the branch
  that builds the registration snippet is not reached from a run.
\<close>

theorem no_bundleViews:
  "opt_bundleViews (build_options sh) = None
   \<and> build_chain env (build_options sh) (ClientRollup name base items)
       = [Read items,
          Concat (Some (\<lambda>b. if mime env (fst b) = ''text/html'' then Inr [] else Inr (snd b)))]
         @ strip_steps (build_options sh)
         @ (if sh_minify sh then [GearTask ''jsminify'' None] else [])
         @ [GearTask (sh_task sh) (Some ((sh_config sh)\<lparr>cfg_name := Some name\<rparr>))]
   \<and> worker sh env item w
       = (case gear_run env (build_chain env (build_options sh) (object item)) of
            Inl e \<Rightarrow> (w\<lparr>builds := builds w @ [item]\<rparr>, Some e)
          | Inr result \<Rightarrow>
              (w\<lparr>builds := builds w @ [item],
                 heap := (heap w)(files item := heap w (files item)
                   @ [result_url (sh_config sh) result])\<rparr>, None))
   \<and> worker sh (env\<lparr>match_view := m, json_stringify := j\<rparr>) = worker sh env
   \<and> compileRollups sh c (env\<lparr>match_view := m, json_stringify := j\<rparr>) md w
       = compileRollups sh c env md w
   \<and> run sh c (env\<lparr>match_view := m, json_stringify := j\<rparr>) = run sh c env"
proof -
  have "worker sh env item w
       = (case gear_run env (build_chain env (build_options sh) (object item)) of
            Inl e \<Rightarrow> (w\<lparr>builds := builds w @ [item]\<rparr>, Some e)
          | Inr result \<Rightarrow>
              (w\<lparr>builds := builds w @ [item],
                 heap := (heap w)(files item := heap w (files item)
                   @ [result_url (sh_config sh) result])\<rparr>, None))"
    by (simp add: worker_def build_def Let_def build_options_def split: sum.splits)
  moreover have "run sh c (env\<lparr>match_view := m, json_stringify := j\<rparr>) = run sh c env"
    by (simp add: run_def Let_def runTask_snippet_free lintFiles_snippet_free)
  moreover have "build_chain env (build_options sh) (ClientRollup name base items)
       = [Read items,
          Concat (Some (\<lambda>b. if mime env (fst b) = ''text/html'' then Inr [] else Inr (snd b)))]
         @ strip_steps (build_options sh)
         @ (if sh_minify sh then [GearTask ''jsminify'' None] else [])
         @ [GearTask (sh_task sh) (Some ((sh_config sh)\<lparr>cfg_name := Some name\<rparr>))]"
    by (simp add: concat_callback_options) (simp add: build_options_def)
  ultimately show ?thesis
    using worker_snippet_free compileRollups_snippet_free
    by (simp add: build_options_def)
qed


subsection \<open>The lint gate\<close>

text \<open>
  Claim C4 at an application without CSS files: with linting enabled, \<open>_lintFiles\<close>
  starts no lint chain and never calls its callback, so the run ends in its initial
  state: no task is run, nothing is built or written, and the callback of \<open>run\<close> is
  not called.
\<close>

theorem lint_without_css_stalls:
  "run (sh_ex\<lparr>sh_lint := True\<rparr>) c_ex env_ex = (start h_ex, None)"
  by (simp add: run_def lintFiles_def filterFiles_eq mime_lookup_def extension_def
      sh_ex_def c_ex_def env_ex_def Let_def)

text \<open>The three ways through \<open>_lintFiles\<close>: without CSS files the callback is never
  called; with CSS files it is called when gear reads them and no blob has a lint
  message, and not called when a blob has one.\<close>

lemma lintFiles_no_css:
  "css (filterFiles (mime env) (getFiles c) True) = [] \<Longrightarrow> lintFiles c env cb w = (w, None)"
  by (simp add: lintFiles_def)

lemma first_error_clean: "\<forall>b \<in> set blobs. csslint b = [] \<Longrightarrow> first_error (map lint_callback blobs) = None"
  by (induction blobs) (simp_all add: lint_callback_def)

lemma first_error_issue: "\<exists>b \<in> set blobs. csslint b \<noteq> [] \<Longrightarrow> first_error (map lint_callback blobs) \<noteq> None"
  by (induction blobs) (auto simp: lint_callback_def)

lemma lintFiles_clean:
  assumes "css (filterFiles (mime env) (getFiles c) True) \<noteq> []"
    and "gear_csslint env (css (filterFiles (mime env) (getFiles c) True)) = Inr blobs"
    and "\<forall>b \<in> set blobs. csslint b = []"
  shows "lintFiles c env cb w = cb w"
  using assms by (simp add: lintFiles_def first_error_clean)

lemma lintFiles_issue:
  assumes "gear_csslint env (css (filterFiles (mime env) (getFiles c) True)) = Inr blobs"
    and "\<exists>b \<in> set blobs. csslint b \<noteq> []"
  shows "lintFiles c env cb w = (w, None)"
proof -
  from first_error_issue [OF assms(2)] obtain e
    where "first_error (map lint_callback blobs) = Some e"
    by auto
  with assms(1) show ?thesis
    by (simp add: lintFiles_def Let_def)
qed

subsection \<open>The queue\<close>

lemma mset_remove_nth:
  "i < length xs \<Longrightarrow> mset (take i xs @ drop (Suc i) xs) + {#xs ! i#} = mset xs"
proof -
  assume "i < length xs"
  then have "xs = take i xs @ xs ! i # drop (Suc i) xs"
    by (rule id_take_nth_drop)
  then have "mset xs = mset (take i xs @ xs ! i # drop (Suc i) xs)"
    by simp
  then show ?thesis
    by simp
qed

lemma worker_fail:
  "build_error sh env t = Some e \<Longrightarrow> worker sh env t w = (w\<lparr>builds := builds w @ [t]\<rparr>, Some e)"
  by (simp add: worker_def build_error_def Let_def split: sum.splits)

lemma worker_ok:
  "build_error sh env t = None \<Longrightarrow>
   worker sh env t w
     = (w\<lparr>builds := builds w @ [t],
          heap := (heap w)(files t := heap w (files t) @ [built_url sh env t])\<rparr>, None)"
  by (simp add: worker_def build_error_def built_url_def Let_def split: sum.splits prod.splits)

lemma pushed_snoc:
  "pushed sh env a (ts @ [t])
     = pushed sh env a ts
       @ (if files t = a \<and> build_error sh env t = None then [built_url sh env t] else [])"
  by (simp add: pushed_def)

lemma queue_invI:
  assumes "mset (builds (q_world s)) + mset (q_active s) + mset (q_pending s) = mset tasks"
    and "\<And>a. heap (q_world s) a = h1 a @ pushed sh env a (builds (q_world s))"
    and "q_thrown s = None \<Longrightarrow> \<forall>t \<in> set (builds (q_world s)). build_error sh env t = None"
    and "\<And>e. q_thrown s = Some e \<Longrightarrow> \<exists>t \<in> set (builds (q_world s)). build_error sh env t = Some e"
    and "q_stuck s = 0 \<longleftrightarrow> q_thrown s = None"
    and "if q_active s = [] \<and> q_pending s = [] \<and> q_thrown s = None \<and> builds (q_world s) \<noteq> []
         then callbacks (q_world s) = [CbDone md (heap (q_world s))]
            \<and> meta_writes (q_world s) = [(META_FILE c, md, heap (q_world s))]
         else callbacks (q_world s) = [] \<and> meta_writes (q_world s) = []"
    and "0 < maxc \<Longrightarrow> q_pending s \<noteq> [] \<Longrightarrow> q_active s \<noteq> [] \<or> q_thrown s \<noteq> None"
  shows "queue_inv sh env c md maxc h1 tasks s"
  unfolding queue_inv_def using assms by blast

lemma queue_step_inv:
  assumes inv: "queue_inv sh env c md maxc h1 tasks s"
  shows "queue_inv sh env c md maxc h1 tasks (queue_step maxc (worker sh env) (drain c md) s)"
proof (cases "quiescent s")
  case True
  with inv show ?thesis
    by (simp add: queue_step_def)
next
  case False
  then have act: "q_active s \<noteq> []"
    by (simp add: quiescent_def)
  define i where "i = (case q_order s of [] \<Rightarrow> 0 | k # ks \<Rightarrow> k mod length (q_active s))"
  define item where "item = q_active s ! i"
  define rest where "rest = take i (q_active s) @ drop (Suc i) (q_active s)"
  define w where "w = q_world s"
  define s' where "s' = queue_step maxc (worker sh env) (drain c md) s"
  from act have il: "i < length (q_active s)"
    by (simp add: i_def split: list.splits)
  then have ms: "mset rest + {#item#} = mset (q_active s)"
    unfolding rest_def item_def by (rule mset_remove_nth)
  from inv have cons: "mset (builds w) + mset (q_active s) + mset (q_pending s) = mset tasks"
    and hp: "\<And>a. heap w a = h1 a @ pushed sh env a (builds w)"
    and th: "q_thrown s = None \<longrightarrow> (\<forall>t \<in> set (builds w). build_error sh env t = None)"
      "\<forall>e. q_thrown s = Some e \<longrightarrow> (\<exists>t \<in> set (builds w). build_error sh env t = Some e)"
    and st: "q_stuck s = 0 \<longleftrightarrow> q_thrown s = None"
    and nd: "callbacks w = []" "meta_writes w = []"
    using act unfolding queue_inv_def w_def by simp_all
  have c1: "mset (builds w @ [item]) + mset rest + mset (q_pending s) = mset tasks"
    using cons ms by (simp add: union_ac) (metis add_mset_add_single union_mset_add_mset_left)
  have step: "s' = (case worker sh env item w of
           (w1, Some e) \<Rightarrow>
             s\<lparr>q_active := rest, q_stuck := Suc (q_stuck s), q_order := tl (q_order s),
               q_world := w1,
               q_thrown := (case q_thrown s of None \<Rightarrow> Some e | Some e0 \<Rightarrow> Some e0)\<rparr>
         | (w1, None) \<Rightarrow>
             let w2 = (if q_pending s = [] \<and> rest = [] \<and> q_stuck s = 0 then drain c md w1
                       else w1) in
             if q_pending s \<noteq> [] \<and> length rest + q_stuck s < maxc
             then s\<lparr>q_pending := tl (q_pending s), q_active := rest @ [hd (q_pending s)],
                    q_order := tl (q_order s), q_world := w2\<rparr>
             else s\<lparr>q_active := rest, q_order := tl (q_order s), q_world := w2\<rparr>)"
    using False
    by (simp only: s'_def queue_step_def Let_def i_def item_def rest_def w_def if_False)
  have "queue_inv sh env c md maxc h1 tasks s'"
  proof (cases "build_error sh env item")
    case (Some e)
    have sel: "q_pending s' = q_pending s" "q_active s' = rest" "q_stuck s' = Suc (q_stuck s)"
      "q_world s' = w\<lparr>builds := builds w @ [item]\<rparr>"
      "q_thrown s' = (case q_thrown s of None \<Rightarrow> Some e | Some e0 \<Rightarrow> Some e0)"
      unfolding step worker_fail [OF Some] by simp_all
    have thr: "q_thrown s' \<noteq> None"
      unfolding sel by (cases "q_thrown s") simp_all
    show ?thesis
    proof (rule queue_invI)
      show "mset (builds (q_world s')) + mset (q_active s') + mset (q_pending s') = mset tasks"
        unfolding sel using c1 by simp
      show "heap (q_world s') a = h1 a @ pushed sh env a (builds (q_world s'))" for a
        unfolding sel using hp Some by (simp add: pushed_snoc)
      show "\<forall>t \<in> set (builds (q_world s')). build_error sh env t = None" if "q_thrown s' = None"
        using that thr by simp
      show "\<exists>t \<in> set (builds (q_world s')). build_error sh env t = Some e'"
        if "q_thrown s' = Some e'" for e'
        using that th(2) Some unfolding sel by (cases "q_thrown s") auto
      show "q_stuck s' = 0 \<longleftrightarrow> q_thrown s' = None"
        using thr by (simp add: sel(3))
      show "if q_active s' = [] \<and> q_pending s' = [] \<and> q_thrown s' = None
              \<and> builds (q_world s') \<noteq> []
         then callbacks (q_world s') = [CbDone md (heap (q_world s'))]
            \<and> meta_writes (q_world s') = [(META_FILE c, md, heap (q_world s'))]
         else callbacks (q_world s') = [] \<and> meta_writes (q_world s') = []"
        using thr nd by (simp add: sel(4))
      show "q_active s' \<noteq> [] \<or> q_thrown s' \<noteq> None"
        using thr by simp
    qed
  next
    case None
    define w1 where "w1 = w\<lparr>builds := builds w @ [item],
          heap := (heap w)(files item := heap w (files item) @ [built_url sh env item])\<rparr>"
    have b1: "builds w1 = builds w @ [item]" and cb1: "callbacks w1 = []" "meta_writes w1 = []"
      using nd by (simp_all add: w1_def)
    have hp1: "heap w1 a = h1 a @ pushed sh env a (builds w1)" for a
      using None hp by (simp add: w1_def pushed_snoc)
    have o1: "q_thrown s = None \<Longrightarrow> \<forall>t \<in> set (builds w1). build_error sh env t = None"
      and o2: "\<And>e. q_thrown s = Some e \<Longrightarrow> \<exists>t \<in> set (builds w1). build_error sh env t = Some e"
      using None th by (auto simp: b1)
    have step1: "s' = (let w2 = (if q_pending s = [] \<and> rest = [] \<and> q_stuck s = 0
                                 then drain c md w1 else w1) in
             if q_pending s \<noteq> [] \<and> length rest + q_stuck s < maxc
             then s\<lparr>q_pending := tl (q_pending s), q_active := rest @ [hd (q_pending s)],
                    q_order := tl (q_order s), q_world := w2\<rparr>
             else s\<lparr>q_active := rest, q_order := tl (q_order s), q_world := w2\<rparr>)"
      unfolding step worker_ok [OF None] w1_def by simp
    consider (last) "q_pending s = []" "rest = []" "q_stuck s = 0"
      | (start) "q_pending s \<noteq> []" "length rest + q_stuck s < maxc"
      | (wait) "q_pending s \<noteq> [] \<or> rest \<noteq> [] \<or> q_stuck s \<noteq> 0"
          "\<not> (q_pending s \<noteq> [] \<and> length rest + q_stuck s < maxc)"
      by auto
    then show ?thesis
    proof cases
      case last
      have sel: "q_pending s' = []" "q_active s' = []" "q_stuck s' = 0"
        "q_world s' = drain c md w1" "q_thrown s' = q_thrown s"
        unfolding step1 using last by simp_all
      from last st have tn: "q_thrown s = None"
        by simp
      have dr: "builds (drain c md w1) = builds w1" "heap (drain c md w1) = heap w1"
        "callbacks (drain c md w1) = [CbDone md (heap w1)]"
        "meta_writes (drain c md w1) = [(META_FILE c, md, heap w1)]"
        using cb1 by (simp_all add: drain_def writeMeta_def callback_def META_FILE_def Let_def)
      show ?thesis
      proof (rule queue_invI)
        show "mset (builds (q_world s')) + mset (q_active s') + mset (q_pending s') = mset tasks"
          unfolding sel dr b1 using c1 last by simp
        show "heap (q_world s') a = h1 a @ pushed sh env a (builds (q_world s'))" for a
          unfolding sel dr by (rule hp1)
        show "\<forall>t \<in> set (builds (q_world s')). build_error sh env t = None" if "q_thrown s' = None"
          unfolding sel dr using o1 tn by simp
        show "\<exists>t \<in> set (builds (q_world s')). build_error sh env t = Some e"
          if "q_thrown s' = Some e" for e
          using that tn by (simp add: sel(5))
        show "q_stuck s' = 0 \<longleftrightarrow> q_thrown s' = None"
          using tn by (simp add: sel)
        show "if q_active s' = [] \<and> q_pending s' = [] \<and> q_thrown s' = None
                \<and> builds (q_world s') \<noteq> []
           then callbacks (q_world s') = [CbDone md (heap (q_world s'))]
              \<and> meta_writes (q_world s') = [(META_FILE c, md, heap (q_world s'))]
           else callbacks (q_world s') = [] \<and> meta_writes (q_world s') = []"
          unfolding sel dr using tn by (simp add: b1)
        show "q_active s' \<noteq> [] \<or> q_thrown s' \<noteq> None" if "q_pending s' \<noteq> []"
          using that by (simp add: sel(1))
      qed
    next
      case start
      have sel: "q_pending s' = tl (q_pending s)" "q_active s' = rest @ [hd (q_pending s)]"
        "q_stuck s' = q_stuck s" "q_world s' = w1" "q_thrown s' = q_thrown s"
        unfolding step1 using start by simp_all
      have "mset rest + mset (q_pending s)
          = mset (rest @ [hd (q_pending s)]) + mset (tl (q_pending s))"
        using start(1) by (cases "q_pending s") simp_all
      with c1 have c2: "mset (builds w1) + mset (rest @ [hd (q_pending s)]) + mset (tl (q_pending s))
          = mset tasks"
        by (simp add: b1 union_ac)
      show ?thesis
      proof (rule queue_invI)
        show "mset (builds (q_world s')) + mset (q_active s') + mset (q_pending s') = mset tasks"
          unfolding sel by (rule c2)
        show "heap (q_world s') a = h1 a @ pushed sh env a (builds (q_world s'))" for a
          unfolding sel by (rule hp1)
        show "\<forall>t \<in> set (builds (q_world s')). build_error sh env t = None" if "q_thrown s' = None"
          using that o1 by (simp add: sel)
        show "\<exists>t \<in> set (builds (q_world s')). build_error sh env t = Some e"
          if "q_thrown s' = Some e" for e
          using that o2 by (simp add: sel)
        show "q_stuck s' = 0 \<longleftrightarrow> q_thrown s' = None"
          using st by (simp add: sel)
        show "if q_active s' = [] \<and> q_pending s' = [] \<and> q_thrown s' = None
                \<and> builds (q_world s') \<noteq> []
           then callbacks (q_world s') = [CbDone md (heap (q_world s'))]
              \<and> meta_writes (q_world s') = [(META_FILE c, md, heap (q_world s'))]
           else callbacks (q_world s') = [] \<and> meta_writes (q_world s') = []"
          using cb1 by (simp add: sel)
        show "q_active s' \<noteq> [] \<or> q_thrown s' \<noteq> None"
          by (simp add: sel)
      qed
    next
      case wait
      have sel: "q_pending s' = q_pending s" "q_active s' = rest"
        "q_stuck s' = q_stuck s" "q_world s' = w1" "q_thrown s' = q_thrown s"
        unfolding step1 using wait by auto
      show ?thesis
      proof (rule queue_invI)
        show "mset (builds (q_world s')) + mset (q_active s') + mset (q_pending s') = mset tasks"
          unfolding sel b1 by (rule c1)
        show "heap (q_world s') a = h1 a @ pushed sh env a (builds (q_world s'))" for a
          unfolding sel by (rule hp1)
        show "\<forall>t \<in> set (builds (q_world s')). build_error sh env t = None" if "q_thrown s' = None"
          using that o1 by (simp add: sel)
        show "\<exists>t \<in> set (builds (q_world s')). build_error sh env t = Some e"
          if "q_thrown s' = Some e" for e
          using that o2 by (simp add: sel)
        show "q_stuck s' = 0 \<longleftrightarrow> q_thrown s' = None"
          using st by (simp add: sel)
        have "\<not> (rest = [] \<and> q_pending s = [] \<and> q_thrown s = None)"
          using wait st by auto
        then show "if q_active s' = [] \<and> q_pending s' = [] \<and> q_thrown s' = None
                \<and> builds (q_world s') \<noteq> []
           then callbacks (q_world s') = [CbDone md (heap (q_world s'))]
              \<and> meta_writes (q_world s') = [(META_FILE c, md, heap (q_world s'))]
           else callbacks (q_world s') = [] \<and> meta_writes (q_world s') = []"
          using cb1 by (auto simp: sel)
        show "q_active s' \<noteq> [] \<or> q_thrown s' \<noteq> None" if "0 < maxc" "q_pending s' \<noteq> []"
          using that wait st unfolding sel by (cases "rest = []") auto
      qed
    qed
  qed
  then show ?thesis
    by (simp only: s'_def)
qed

lemma start_inv:
  "queue_inv sh env c md maxc h1 tasks (start_queue maxc order tasks ((start h)\<lparr>heap := h1\<rparr>))"
proof -
  have "mset (take maxc tasks) + mset (drop maxc tasks) = mset tasks"
    by (metis append_take_drop_id mset_append)
  moreover have "take maxc tasks \<noteq> []" if "0 < maxc" "drop maxc tasks \<noteq> []"
    using that by (cases tasks) auto
  ultimately show ?thesis
    by (auto simp: queue_inv_def start_queue_def start_def pushed_def)
qed

lemma funpow_inv:
  "queue_inv sh env c md maxc h1 tasks s \<Longrightarrow>
   queue_inv sh env c md maxc h1 tasks ((queue_step maxc (worker sh env) (drain c md) ^^ n) s)"
  by (induction n) (simp_all add: queue_step_inv)

lemma run_queue_inv:
  "queue_inv sh env c md maxc h1 tasks s \<Longrightarrow>
   queue_inv sh env c md maxc h1 tasks (run_queue maxc (worker sh env) (drain c md) s)
   \<and> quiescent (run_queue maxc (worker sh env) (drain c md) s)"
proof (induction maxc "worker sh env" "drain c md" s rule: run_queue.induct)
  case (1 maxc s)
  show ?case
  proof (cases "quiescent s")
    case True
    with 1 show ?thesis
      by (simp add: run_queue.simps)
  next
    case False
    from "1.prems" have "queue_inv sh env c md maxc h1 tasks (queue_step maxc (worker sh env) (drain c md) s)"
      by (rule queue_step_inv)
    with "1.hyps" False show ?thesis
      by (simp add: run_queue.simps [of _ _ _ s])
  qed
qed

lemma all_done:
  assumes "queue_inv sh env c md maxc h1 tasks s" and "0 < maxc"
    and "\<forall>t \<in> set tasks. build_error sh env t = None"
  shows "q_thrown s = None"
    and "mset (builds (q_world s)) = mset tasks \<longleftrightarrow> q_active s = []"
    and "q_active s = [] \<Longrightarrow> q_pending s = []"
proof -
  from assms(1) have sub: "set (builds (q_world s)) \<subseteq> set tasks"
    unfolding queue_inv_def by (metis mset_subset_eqD mset_subset_eq_add_left set_mset_mset subsetI union_assoc)
  show thr: "q_thrown s = None"
  proof (cases "q_thrown s")
    case (Some e)
    with assms(1) obtain t where "t \<in> set (builds (q_world s))" "build_error sh env t = Some e"
      by (auto simp: queue_inv_def)
    with sub assms(3) show ?thesis
      by auto
  qed simp
  from assms(1,2) thr show pend: "q_active s = [] \<Longrightarrow> q_pending s = []"
    by (auto simp: queue_inv_def)
  from assms(1) have "mset (builds (q_world s)) + mset (q_active s) + mset (q_pending s) = mset tasks"
    by (simp add: queue_inv_def)
  with pend show "mset (builds (q_world s)) = mset tasks \<longleftrightarrow> q_active s = []"
    by (cases "q_active s = []") (auto simp: add.assoc)
qed

lemma start_heap: "(start h)\<lparr>heap := h\<rparr> = start h"
  by (simp add: start_def)

lemma mset_pushed:
  "mset (pushed sh env a ts)
     = image_mset (built_url sh env)
         (filter_mset (\<lambda>t. files t = a \<and> build_error sh env t = None) (mset ts))"
  by (simp add: pushed_def)

text \<open>
  Claim C8.  For every non-empty list of queued tasks whose builds succeed, every bound
  of at least one task in flight and every completion order: at each point of the
  run the callback of the drain function has been called exactly once if every task
  has completed, and then every array holds the URLs of all the tasks whose sink it
  is, and it has not been called otherwise; and the run comes to an end where every
  task has completed.  The instance that follows is a run of five tasks with at
  most two in flight: the callback is called once, with all five sinks written.
\<close>

theorem drain_once:
  assumes "0 < maxc" and "tasks \<noteq> []" and "\<forall>t \<in> set tasks. build_error sh env t = None"
  shows "(\<forall>n. let s = (queue_step maxc (worker sh env) (drain c md) ^^ n)
                         (start_queue maxc order tasks (start h)) in
              if mset (builds (q_world s)) = mset tasks
              then callbacks (q_world s) = [CbDone md (heap (q_world s))]
                \<and> (\<forall>a. heap (q_world s) a = h a @ pushed sh env a (builds (q_world s)))
              else callbacks (q_world s) = [])
    \<and> (let s = run_queue maxc (worker sh env) (drain c md)
                  (start_queue maxc order tasks (start h)) in
          q_thrown s = None
        \<and> mset (builds (q_world s)) = mset tasks
        \<and> callbacks (q_world s) = [CbDone md (heap (q_world s))]
        \<and> (\<forall>a. mset (heap (q_world s) a)
                = mset (h a)
                  + image_mset (built_url sh env) (filter_mset (\<lambda>t. files t = a) (mset tasks))))"
proof -
  let ?s0 = "start_queue maxc order tasks (start h)"
  have i0: "queue_inv sh env c md maxc h tasks ?s0"
    using start_inv [of sh env c md maxc h tasks order h] by (simp add: start_heap)
  have point: "if mset (builds (q_world s)) = mset tasks
      then callbacks (q_world s) = [CbDone md (heap (q_world s))]
        \<and> (\<forall>a. heap (q_world s) a = h a @ pushed sh env a (builds (q_world s)))
      else callbacks (q_world s) = []"
    if inv: "queue_inv sh env c md maxc h tasks s" for s
  proof -
    note d = all_done [OF inv assms(1,3)]
    show ?thesis
    proof (cases "q_active s = []")
      case True
      with d have "q_pending s = []" "mset (builds (q_world s)) = mset tasks"
        by simp_all
      moreover from this assms(2) have "builds (q_world s) \<noteq> []"
        by auto
      ultimately show ?thesis
        using inv True d(1) by (simp add: queue_inv_def)
    next
      case False
      with d(2) have "mset (builds (q_world s)) \<noteq> mset tasks"
        by simp
      with inv False show ?thesis
        by (simp add: queue_inv_def)
    qed
  qed
  have "\<forall>n. let s = (queue_step maxc (worker sh env) (drain c md) ^^ n) ?s0 in
      if mset (builds (q_world s)) = mset tasks
      then callbacks (q_world s) = [CbDone md (heap (q_world s))]
        \<and> (\<forall>a. heap (q_world s) a = h a @ pushed sh env a (builds (q_world s)))
      else callbacks (q_world s) = []"
    unfolding Let_def using point [OF funpow_inv [OF i0]] by blast
  moreover
  define sf where "sf = run_queue maxc (worker sh env) (drain c md) ?s0"
  have inv: "queue_inv sh env c md maxc h tasks sf" and q: "quiescent sf"
    unfolding sf_def using run_queue_inv [OF i0] by simp_all
  note d = all_done [OF inv assms(1,3)]
  from q d(1) have a: "q_active sf = []"
    by (simp add: quiescent_def)
  with d have m: "mset (builds (q_world sf)) = mset tasks"
    by simp
  with point [OF inv] have cb: "callbacks (q_world sf) = [CbDone md (heap (q_world sf))]"
    and hp: "\<And>a. heap (q_world sf) a = h a @ pushed sh env a (builds (q_world sf))"
    by simp_all
  have "mset (heap (q_world sf) a)
      = mset (h a) + image_mset (built_url sh env) (filter_mset (\<lambda>t. files t = a) (mset tasks))"
    for a
  proof -
    have "filter_mset (\<lambda>t. files t = a \<and> build_error sh env t = None) (mset tasks)
        = filter_mset (\<lambda>t. files t = a) (mset tasks)"
      using assms(3) by (intro filter_mset_cong refl) auto
    then show ?thesis
      by (simp add: hp mset_pushed m)
  qed
  with d(1) m cb have "let s = sf in q_thrown s = None
      \<and> mset (builds (q_world s)) = mset tasks
      \<and> callbacks (q_world s) = [CbDone md (heap (q_world s))]
      \<and> (\<forall>a. mset (heap (q_world s) a)
              = mset (h a)
                + image_mset (built_url sh env) (filter_mset (\<lambda>t. files t = a) (mset tasks)))"
    by simp
  ultimately show ?thesis
    unfolding sf_def by blast
qed

lemma build_error_ex: "build_error sh env_ex t = None"
  by (simp add: build_error_def build_def env_ex_def)

lemma build_ex:
  "build env_ex (build_options sh_ex) b = Inr (''/static/'' @ builder_name b, False)"
  by (cases b)
    (simp_all add: build_def env_ex_def build_options_def sh_ex_def cfg_ex_def result_url_def
      strip_steps_def)

lemma worker_ex:
  "worker sh_ex env_ex t w
     = (w\<lparr>builds := builds w @ [t],
          heap := (heap w)(files t := heap w (files t) @ [''/static/'' @ builder_name (object t)])\<rparr>,
        None)"
  by (simp add: worker_def build_ex Let_def)

lemma five_tasks_ex:
  "map (heap (q_world (run_queue 2 (worker sh_ex env_ex) (drain c_ex md_ex)
          (start_queue 2 [1, 0, 1] five_tasks (start (\<lambda>a. []))))))
     [0, 1, 2, 3]
   = [[''/static/assets/compiled/core_{checksum}.js''],
      [''/static/assets/images/b.png'', ''/static/assets/images/a.png''],
      [''/static/assets/compiled/m_default_{checksum}.js''],
      [''/static/assets/compiled/client_m_{checksum}.js'']]"
  by (simp add: five_tasks_def start_def start_queue_def run_queue.simps queue_step_def
      quiescent_def worker_ex drain_def writeMeta_def callback_def)

theorem drain_once_witness:
  "0 < (2::nat) \<and> length five_tasks = 5
   \<and> list_all (\<lambda>t. build_error sh_ex env_ex t = None) five_tasks
   \<and> q_thrown (run_queue 2 (worker sh_ex env_ex) (drain c_ex md_ex)
        (start_queue 2 [1, 0, 1] five_tasks (start (\<lambda>a. [])))) = None
   \<and> mset (builds (q_world (run_queue 2 (worker sh_ex env_ex) (drain c_ex md_ex)
        (start_queue 2 [1, 0, 1] five_tasks (start (\<lambda>a. [])))))) = mset five_tasks
   \<and> callbacks (q_world (run_queue 2 (worker sh_ex env_ex) (drain c_ex md_ex)
        (start_queue 2 [1, 0, 1] five_tasks (start (\<lambda>a. [])))))
      = [CbDone md_ex (heap (q_world (run_queue 2 (worker sh_ex env_ex) (drain c_ex md_ex)
          (start_queue 2 [1, 0, 1] five_tasks (start (\<lambda>a. []))))))]
   \<and> map (heap (q_world (run_queue 2 (worker sh_ex env_ex) (drain c_ex md_ex)
          (start_queue 2 [1, 0, 1] five_tasks (start (\<lambda>a. []))))))
        [0, 1, 2, 3]
      = [[''/static/assets/compiled/core_{checksum}.js''],
         [''/static/assets/images/b.png'', ''/static/assets/images/a.png''],
         [''/static/assets/compiled/m_default_{checksum}.js''],
         [''/static/assets/compiled/client_m_{checksum}.js'']]"
proof -
  have a: "0 < (2::nat)" "five_tasks \<noteq> []" "length five_tasks = 5"
    by (simp_all add: five_tasks_def)
  have b: "\<forall>t \<in> set five_tasks. build_error sh_ex env_ex t = None"
    by (simp add: build_error_ex)
  from drain_once [OF a(1,2) b, of c_ex md_ex "[1, 0, 1]" "\<lambda>a. []"] a b five_tasks_ex
  show ?thesis
    by (simp add: Let_def list_all_iff)
qed

lemma plan_ex_snd: "snd (queueRollups sh_ex c_ex mime_lookup md_ex ([], h_ex)) = (\<lambda>a. [])"
  by (rule ext)
    (simp add: plan_snd plan_leaves_def mojit_action_leaves_def app_action_leaves_def
      md_ex_def h_ex_def sh_ex_def)

lemma run_ex:
  "snd (run sh_ex c_ex env_ex) = None
   \<and> map (heap (fst (run sh_ex c_ex env_ex))) [0, 1, 2, 3, 4, 5]
     = [[''/static/assets/compiled/core_{checksum}.js''],
        [''/static/assets/images/b.png'', ''/static/assets/images/a.png''],
        [''/static/assets/compiled/m_default_{checksum}.js'',
         ''/static/assets/compiled/m_default_{checksum}.css''],
        [''/static/assets/compiled/client_m_{checksum}.js''], [], []]"
proof -
  have m: "mime env_ex = mime_lookup" "completion_order env_ex = [1, 0, 1]"
    by (simp_all add: env_ex_def)
  have s: "sh_parallel sh_ex = 2" "sh_lint sh_ex = False" "sh_task sh_ex \<noteq> DEFAULT_TASK"
    by (simp_all add: sh_ex_def DEFAULT_TASK_def)
  have c: "isMojitApp c_ex" "core_run c_ex = (md_ex, h_ex)"
    by (simp_all add: c_ex_def)
  show ?thesis
    by (simp add: run_def runTask_def compileRollups_def Let_def m s c
        plan_ex plan_ex_snd start_def start_queue_def run_queue.simps queue_step_def
        quiescent_def worker_ex drain_def writeMeta_def callback_def)
qed

lemma plan_ok_images: "plan_ok h p \<Longrightarrow> plan_ok h (queue_images md p)"
  unfolding plan_ok_def queue_images_eq image_tasks_def by auto

lemma plan_ok_core: "plan_ok h p \<Longrightarrow> plan_ok h (queue_core sh md p)"
  unfolding plan_ok_def queue_core_eq core_task_def by auto

lemma plan_ok_leaf:
  assumes "plan_ok h p"
  shows "plan_ok h (queue_leaf sh lk l p)"
proof -
  have "files t = leaf_addr l" if "t \<in> set (leaf_tasks sh lk l (snd p (leaf_addr l)))" for t
    using that by (rule files_leaf_tasks)
  with assms show ?thesis
    unfolding plan_ok_def queue_leaf_eq by auto
qed

lemma plan_ok_leaves: "plan_ok h p \<Longrightarrow> plan_ok h (fold (queue_leaf sh lk) ls p)"
  by (induction ls arbitrary: p) (simp_all add: plan_ok_leaf)

lemma plan_ok_queueRollups: "plan_ok h (queueRollups sh c lk md ([], h))"
proof -
  have "plan_ok h ([], h)"
    by (simp add: plan_ok_def)
  then show ?thesis
    unfolding queueRollups_leaves
    by (intro plan_ok_leaves plan_ok_core) (simp add: plan_ok_images)
qed

lemma compileRollups_eq:
  "compileRollups sh c env md (start h)
     = (let s = run_queue (sh_parallel sh) (worker sh env) (drain c md)
                  (start_queue (sh_parallel sh) (completion_order env)
                     (fst (queueRollups sh c (mime env) md ([], h)))
                     ((start h)\<lparr>heap := snd (queueRollups sh c (mime env) md ([], h))\<rparr>))
        in (q_world s, q_thrown s))"
  by (simp add: compileRollups_def Let_def start_def)

lemma builds_subset:
  assumes "queue_inv sh env c md maxc h1 tasks s"
  shows "mset (builds (q_world s)) \<subseteq># mset tasks"
proof -
  from assms have "mset (builds (q_world s)) + (mset (q_active s) + mset (q_pending s)) = mset tasks"
    by (simp add: queue_inv_def add.assoc)
  then show ?thesis
    by (metis mset_subset_eq_add_left)
qed

lemma run_success:
  assumes "0 < maxc" and "tasks \<noteq> []" and "\<forall>t \<in> set tasks. build_error sh env t = None"
    and "sf = run_queue maxc (worker sh env) (drain c md)
               (start_queue maxc order tasks ((start h)\<lparr>heap := h1\<rparr>))"
  shows "q_thrown sf = None" and "mset (builds (q_world sf)) = mset tasks"
    and "callbacks (q_world sf) = [CbDone md (heap (q_world sf))]"
    and "meta_writes (q_world sf) = [(META_FILE c, md, heap (q_world sf))]"
    and "heap (q_world sf) a = h1 a @ pushed sh env a (builds (q_world sf))"
    and "length (pushed sh env a (builds (q_world sf))) = length (filter (\<lambda>t. files t = a) tasks)"
proof -
  have inv: "queue_inv sh env c md maxc h1 tasks sf" and q: "quiescent sf"
    unfolding assms(4) using run_queue_inv [OF start_inv] by simp_all
  note d = all_done [OF inv assms(1,3)]
  show thr: "q_thrown sf = None"
    by (rule d(1))
  with q have a: "q_active sf = []"
    by (simp add: quiescent_def)
  with d show m: "mset (builds (q_world sf)) = mset tasks"
    by simp
  with assms(2) have "builds (q_world sf) \<noteq> []"
    by auto
  with inv a d(3) thr show "callbacks (q_world sf) = [CbDone md (heap (q_world sf))]"
    and "meta_writes (q_world sf) = [(META_FILE c, md, heap (q_world sf))]"
    by (simp_all add: queue_inv_def)
  from inv show "heap (q_world sf) a = h1 a @ pushed sh env a (builds (q_world sf))"
    by (simp add: queue_inv_def)
  have "filter_mset (\<lambda>t. files t = a \<and> build_error sh env t = None) (mset tasks)
      = filter_mset (\<lambda>t. files t = a) (mset tasks)"
    using assms(3) by (intro filter_mset_cong refl) auto
  then have "size (mset (pushed sh env a (builds (q_world sf))))
      = size (mset (filter (\<lambda>t. files t = a) tasks))"
    by (simp add: mset_pushed m)
  then show "length (pushed sh env a (builds (q_world sf))) = length (filter (\<lambda>t. files t = a) tasks)"
    by (simp only: size_mset)
qed

lemma run_failure:
  assumes "0 < maxc" and "\<exists>t \<in> set tasks. build_error sh env t \<noteq> None"
    and "sf = run_queue maxc (worker sh env) (drain c md)
               (start_queue maxc order tasks ((start h)\<lparr>heap := h1\<rparr>))"
  shows "\<exists>e. q_thrown sf = Some e \<and> (\<exists>t \<in> set tasks. build_error sh env t = Some e)"
    and "callbacks (q_world sf) = []" and "meta_writes (q_world sf) = []"
    and "mset (builds (q_world sf)) \<subseteq># mset tasks"
proof -
  have inv: "queue_inv sh env c md maxc h1 tasks sf" and q: "quiescent sf"
    unfolding assms(3) using run_queue_inv [OF start_inv] by simp_all
  show sub: "mset (builds (q_world sf)) \<subseteq># mset tasks"
    using inv by (rule builds_subset)
  then have ss: "set (builds (q_world sf)) \<subseteq> set tasks"
    by (metis set_mset_mono set_mset_mset)
  have thr: "q_thrown sf \<noteq> None"
  proof
    assume n: "q_thrown sf = None"
    with q have a: "q_active sf = []"
      by (simp add: quiescent_def)
    with inv n assms(1) have "q_pending sf = []"
      by (auto simp: queue_inv_def)
    with inv a have "mset (builds (q_world sf)) = mset tasks"
      by (simp add: queue_inv_def)
    then have "set (builds (q_world sf)) = set tasks"
      by (rule mset_eq_setD)
    moreover from inv n have "\<forall>t \<in> set (builds (q_world sf)). build_error sh env t = None"
      by (simp add: queue_inv_def)
    ultimately show False
      using assms(2) by simp
  qed
  then obtain e where e: "q_thrown sf = Some e"
    by auto
  with inv obtain t where "t \<in> set (builds (q_world sf))" "build_error sh env t = Some e"
    by (auto simp: queue_inv_def)
  with ss e show "\<exists>e. q_thrown sf = Some e \<and> (\<exists>t \<in> set tasks. build_error sh env t = Some e)"
    by auto
  from inv thr show "callbacks (q_world sf) = []" and "meta_writes (q_world sf) = []"
    by (simp_all add: queue_inv_def)
qed

lemma never_drained:
  assumes inv: "queue_inv sh env c md maxc h1 tasks s"
    and "\<exists>t \<in> set tasks. build_error sh env t \<noteq> None"
  shows "callbacks (q_world s) = []" and "meta_writes (q_world s) = []"
proof -
  have "\<not> (q_active s = [] \<and> q_pending s = [] \<and> q_thrown s = None \<and> builds (q_world s) \<noteq> [])"
  proof
    assume a: "q_active s = [] \<and> q_pending s = [] \<and> q_thrown s = None \<and> builds (q_world s) \<noteq> []"
    with inv have "mset (builds (q_world s)) = mset tasks"
      by (simp add: queue_inv_def)
    then have "set (builds (q_world s)) = set tasks"
      by (rule mset_eq_setD)
    moreover from inv a have "\<forall>t \<in> set (builds (q_world s)). build_error sh env t = None"
      by (simp add: queue_inv_def)
    ultimately show False
      using assms(2) by simp
  qed
  with inv show "callbacks (q_world s) = []" and "meta_writes (q_world s) = []"
    unfolding queue_inv_def by presburger+
qed

lemma build_error_gear:
  "build_error sh env t = Some e
     \<longleftrightarrow> gear_run env (build_chain env (build_options sh) (object t)) = Inl e"
  by (simp add: build_error_def build_def split: sum.splits)

text \<open>
  Claim C2 (as amended).  For every build-mode run in which the build of some queued task
  yields an error, an exception escapes that is, unchanged, the error that gear
  returned for one of the queued tasks; and at every point of the run, as at its
  end, the callback given to \<open>run\<close> has not been called, the metadata file has not
  been written, and no task has been built more often than it was queued.
\<close>

theorem build_failure_thrown:
  assumes "0 < sh_parallel sh"
    and "\<exists>t \<in> set (fst (queueRollups sh c (mime env) md ([], h))). build_error sh env t \<noteq> None"
  shows "(\<exists>e. snd (compileRollups sh c env md (start h)) = Some e
            \<and> (\<exists>t \<in> set (fst (queueRollups sh c (mime env) md ([], h))).
                  gear_run env (build_chain env (build_options sh) (object t)) = Inl e))
    \<and> callbacks (fst (compileRollups sh c env md (start h))) = []
    \<and> meta_writes (fst (compileRollups sh c env md (start h))) = []
    \<and> mset (builds (fst (compileRollups sh c env md (start h))))
        \<subseteq># mset (fst (queueRollups sh c (mime env) md ([], h)))
    \<and> (\<forall>n. let w = q_world ((queue_step (sh_parallel sh) (worker sh env) (drain c md) ^^ n)
                        (start_queue (sh_parallel sh) (completion_order env)
                           (fst (queueRollups sh c (mime env) md ([], h)))
                           ((start h)\<lparr>heap := snd (queueRollups sh c (mime env) md ([], h))\<rparr>)))
             in callbacks w = [] \<and> meta_writes w = []
              \<and> mset (builds w) \<subseteq># mset (fst (queueRollups sh c (mime env) md ([], h))))"
proof -
  have inv: "queue_inv sh env c md (sh_parallel sh) (snd (queueRollups sh c (mime env) md ([], h)))
      (fst (queueRollups sh c (mime env) md ([], h)))
      ((queue_step (sh_parallel sh) (worker sh env) (drain c md) ^^ n)
         (start_queue (sh_parallel sh) (completion_order env)
            (fst (queueRollups sh c (mime env) md ([], h)))
            ((start h)\<lparr>heap := snd (queueRollups sh c (mime env) md ([], h))\<rparr>)))" for n
    by (rule funpow_inv [OF start_inv])
  have every: "\<forall>n. let w = q_world ((queue_step (sh_parallel sh) (worker sh env) (drain c md) ^^ n)
                        (start_queue (sh_parallel sh) (completion_order env)
                           (fst (queueRollups sh c (mime env) md ([], h)))
                           ((start h)\<lparr>heap := snd (queueRollups sh c (mime env) md ([], h))\<rparr>)))
             in callbacks w = [] \<and> meta_writes w = []
              \<and> mset (builds w) \<subseteq># mset (fst (queueRollups sh c (mime env) md ([], h)))"
    unfolding Let_def
    using never_drained [OF inv assms(2)] builds_subset [OF inv]
    by simp
  define sf where "sf = run_queue (sh_parallel sh) (worker sh env) (drain c md)
      (start_queue (sh_parallel sh) (completion_order env)
         (fst (queueRollups sh c (mime env) md ([], h)))
         ((start h)\<lparr>heap := snd (queueRollups sh c (mime env) md ([], h))\<rparr>))"
  note f = run_failure [OF assms sf_def]
  have cr: "compileRollups sh c env md (start h) = (q_world sf, q_thrown sf)"
    unfolding sf_def by (simp add: compileRollups_eq Let_def)
  from f(1) obtain e t where "q_thrown sf = Some e"
    and "t \<in> set (fst (queueRollups sh c (mime env) md ([], h)))"
    and "build_error sh env t = Some e"
    by blast
  then have "\<exists>e. q_thrown sf = Some e
      \<and> (\<exists>t \<in> set (fst (queueRollups sh c (mime env) md ([], h))).
            gear_run env (build_chain env (build_options sh) (object t)) = Inl e)"
    unfolding build_error_gear by blast
  with f(2-4) every show ?thesis
    unfolding cr by simp
qed

lemma chain_name_build: "chain_name (build_chain env (build_options sh_ex) b) = builder_name b"
  by (cases b) (simp_all add: build_options_def sh_ex_def strip_steps_def)

lemma build_fail:
  "build env_fail (build_options sh_ex) b
     = (if builder_name b = ''assets/compiled/core_{checksum}.js'' then Inl ''EIO''
        else Inr (''/static/'' @ builder_name b, False))"
proof -
  have g: "gear_run env_fail ch
      = (if chain_name ch = ''assets/compiled/core_{checksum}.js'' then Inl ''EIO''
         else Inr \<lparr>res_url = None, res_name = chain_name ch, res_skipped = False\<rparr>)" for ch
    by (simp add: env_fail_def env_ex_def)
  have o: "cfg_root (opt_config (build_options sh_ex)) = ''/static/''"
    by (simp add: build_options_def sh_ex_def cfg_ex_def)
  show ?thesis
    unfolding build_def g chain_name_build
    by (simp add: result_url_def o)
qed

lemma worker_fail_ex:
  "worker sh_ex env_fail t w
     = (if builder_name (object t) = ''assets/compiled/core_{checksum}.js''
        then (w\<lparr>builds := builds w @ [t]\<rparr>, Some ''EIO'')
        else (w\<lparr>builds := builds w @ [t],
                heap := (heap w)(files t := heap w (files t)
                  @ [''/static/'' @ builder_name (object t)])\<rparr>, None))"
  by (simp add: worker_def build_fail Let_def)

lemma run_fail_ex:
  "snd (run sh_ex c_ex env_fail) = Some ''EIO''
   \<and> callbacks (fst (run sh_ex c_ex env_fail)) = []
   \<and> meta_writes (fst (run sh_ex c_ex env_fail)) = []
   \<and> length (builds (fst (run sh_ex c_ex env_fail))) = 6"
proof -
  have m: "mime env_fail = mime_lookup" "completion_order env_fail = [1, 0, 1]"
    by (simp_all add: env_fail_def env_ex_def)
  have s: "sh_parallel sh_ex = 2" "sh_lint sh_ex = False" "sh_task sh_ex \<noteq> DEFAULT_TASK"
    by (simp_all add: sh_ex_def DEFAULT_TASK_def)
  have c: "isMojitApp c_ex" "core_run c_ex = (md_ex, h_ex)"
    by (simp_all add: c_ex_def)
  show ?thesis
    by (simp add: run_def runTask_def compileRollups_def Let_def m s c
        plan_ex plan_ex_snd start_def start_queue_def run_queue.simps queue_step_def
        quiescent_def worker_fail_ex drain_def writeMeta_def callback_def)
qed

text \<open>The claim as stated has the error passed to the callback given to \<open>run\<close>: when gear
  fails on the core rollup of the example, the error escapes as an exception and the
  callback is not called at all.\<close>

theorem build_failure_callback_counterexample:
  "snd (run sh_ex c_ex env_fail) = Some ''EIO'' \<and> callbacks (fst (run sh_ex c_ex env_fail)) = []"
  using run_fail_ex by simp

theorem build_failure_thrown_witness:
  "0 < sh_parallel sh_ex
   \<and> build_error sh_ex env_fail (fst (queueRollups sh_ex c_ex (mime env_fail) md_ex ([], h_ex)) ! 2)
       = Some ''EIO''
   \<and> snd (compileRollups sh_ex c_ex env_fail md_ex (start h_ex)) \<noteq> None
   \<and> callbacks (fst (compileRollups sh_ex c_ex env_fail md_ex (start h_ex))) = []
   \<and> meta_writes (fst (compileRollups sh_ex c_ex env_fail md_ex (start h_ex))) = []"
proof -
  have m: "mime env_fail = mime_lookup"
    by (simp add: env_fail_def env_ex_def)
  have p: "0 < sh_parallel sh_ex"
    by (simp add: sh_ex_def)
  have e: "build_error sh_ex env_fail (fst (queueRollups sh_ex c_ex mime_lookup md_ex ([], h_ex)) ! 2)
      = Some ''EIO''"
    unfolding plan_ex by (simp add: build_error_def build_fail)
  have i: "fst (queueRollups sh_ex c_ex mime_lookup md_ex ([], h_ex)) ! 2
      \<in> set (fst (queueRollups sh_ex c_ex mime_lookup md_ex ([], h_ex)))"
    unfolding plan_ex by simp
  from e i have "\<exists>t \<in> set (fst (queueRollups sh_ex c_ex (mime env_fail) md_ex ([], h_ex))).
      build_error sh_ex env_fail t \<noteq> None"
    unfolding m by (metis option.distinct(1))
  from build_failure_thrown [OF p this] p e show ?thesis
    unfolding m by auto
qed

subsection \<open>A run in build mode\<close>

lemma sink_tasks_other:
  assumes "a \<notin> leaf_addr ` set (plan_leaves sh c md)"
  shows "filter (\<lambda>t. files t = a)
      (concat (map (\<lambda>l. leaf_tasks sh lk l (h (leaf_addr l))) (plan_leaves sh c md))) = []"
proof (rule filter_concat_other)
  fix l t assume "l \<in> set (plan_leaves sh c md)" and "t \<in> set (leaf_tasks sh lk l (h (leaf_addr l)))"
  then have "files t = leaf_addr l" and "leaf_addr l \<in> leaf_addr ` set (plan_leaves sh c md)"
    by (simp_all add: files_leaf_tasks)
  with assms show "files t \<noteq> a"
    by metis
qed

lemma sink_tasks_core:
  assumes "distinct (leaf_addrs md)"
  shows "filter (\<lambda>t. files t = core md) (fst (queueRollups sh c lk md ([], h)))
     = [core_task sh md (h (core md))]"
proof -
  from assms have ci: "core md \<noteq> images md"
    and nc: "core md \<notin> leaf_addr ` set (plan_leaves sh c md)"
    by (simp_all add: leaf_addrs_def leaf_addr_plan_leaves flip: set_map)
  show ?thesis
    using ci sink_tasks_other [OF nc]
    by (auto simp: plan_fst [OF assms] image_tasks_def core_task_def filter_empty_conv)
qed

lemma sink_tasks_images:
  assumes "distinct (leaf_addrs md)"
  shows "filter (\<lambda>t. files t = images md) (fst (queueRollups sh c lk md ([], h)))
     = (if sh_images sh then image_tasks md (h (images md)) else [])"
proof -
  from assms have ci: "core md \<noteq> images md"
    and ni: "images md \<notin> leaf_addr ` set (plan_leaves sh c md)"
    by (simp_all add: leaf_addrs_def leaf_addr_plan_leaves flip: set_map)
  show ?thesis
    using ci sink_tasks_other [OF ni]
    by (auto simp: plan_fst [OF assms] image_tasks_def core_task_def filter_id_conv)
qed

lemma plan_nonempty:  "fst (queueRollups sh c lk md ([], h)) \<noteq> []"
proof -
  obtain ts where "fst (queueRollups sh c lk md ([], h))
      = fst (queue_core sh md (if sh_images sh then queue_images md ([], h) else ([], h))) @ ts"
    unfolding queueRollups_leaves using fold_leaves_prefix by blast
  then show ?thesis
    by (simp add: queue_core_eq)
qed

text \<open>The tasks of a plan, sink by sink: what \<open>_queueRollups\<close> queues for the images,
  for a client list and for a dimension list, and which arrays it leaves alone.\<close>

lemma image_tasks_items: "image_tasks md content = map (image_item md) content"
  by (simp add: image_tasks_def image_item_def)

lemma dim_tasks_items: "dim_tasks sh lk stem a content = dim_items sh lk stem a content"
  by (simp add: dim_tasks_def dim_items_def filterFiles_eq wrap_def comp_def)

lemma set_leaf_addrs:
  "set (leaf_addrs md) = insert (core md) (insert (images md) (leaf_addr ` set (plan_leaves sh c md)))"
  by (simp add: leaf_addrs_def leaf_addr_plan_leaves flip: set_map)

lemma mojit_client_leaf:
  assumes "m \<in> set (mojits md)" and "av \<in> set (snd m)"
  shows "ClientLeaf (sh_compiled_dir sh @ ''client_'' @ fst m @ ''_{checksum}.js'') (getAppRoot c)
      (client (snd av)) \<in> set (plan_leaves sh c md)"
proof -
  have "ClientLeaf (sh_compiled_dir sh @ ''client_'' @ fst m @ ''_{checksum}.js'') (getAppRoot c)
      (client (snd av)) \<in> set (mojit_action_leaves sh c (fst m) av)"
    by (simp add: mojit_action_leaves_def)
  with assms show ?thesis
    unfolding set_plan_leaves by blast
qed

lemma mojit_dim_leaf:
  assumes "m \<in> set (mojits md)" and "av \<in> set (snd m)" and "d \<in> set (shaken (snd av))"
  shows "DimLeaf (fst m @ ''_'' @ replace_star (fst av) @ ''_{checksum}'') (snd d)
      \<in> set (plan_leaves sh c md)"
proof -
  from assms(3) have "DimLeaf (fst m @ ''_'' @ replace_star (fst av) @ ''_{checksum}'') (snd d)
      \<in> set (mojit_action_leaves sh c (fst m) av)"
    by (simp add: mojit_action_leaves_def)
  with assms(1,2) show ?thesis
    unfolding set_plan_leaves by blast
qed

lemma app_client_leaf:
  assumes "av \<in> set (app md)"
  shows "ClientLeaf (sh_compiled_dir sh @ ''appclient_'' @ fst av @ ''_{checksum}.js'') (getAppRoot c)
      (client (snd av)) \<in> set (plan_leaves sh c md)"
proof -
  have "ClientLeaf (sh_compiled_dir sh @ ''appclient_'' @ fst av @ ''_{checksum}.js'') (getAppRoot c)
      (client (snd av)) \<in> set (app_action_leaves sh c av)"
    by (simp add: app_action_leaves_def)
  with assms show ?thesis
    unfolding set_plan_leaves by blast
qed

lemma app_dim_leaf:
  assumes "av \<in> set (app md)" and "d \<in> set (shaken (snd av))"
  shows "DimLeaf (''app_'' @ replace_star (fst av) @ ''_{checksum}'') (snd d)
      \<in> set (plan_leaves sh c md)"
proof -
  from assms(2) have "DimLeaf (''app_'' @ replace_star (fst av) @ ''_{checksum}'') (snd d)
      \<in> set (app_action_leaves sh c av)"
    by (simp add: app_action_leaves_def)
  with assms(1) show ?thesis
    unfolding set_plan_leaves by blast
qed

lemma sink_client:
  assumes "distinct (leaf_addrs md)" and "ClientLeaf name base a \<in> set (plan_leaves sh c md)"
  shows "sink_tasks a (fst (queueRollups sh c lk md ([], h)))
       = (if h a = [] then [] else [\<lparr>object = new_ClientRollup name base (h a), files = a\<rparr>])"
    and "snd (queueRollups sh c lk md ([], h)) a = []"
proof -
  show "sink_tasks a (fst (queueRollups sh c lk md ([], h)))
       = (if h a = [] then [] else [\<lparr>object = new_ClientRollup name base (h a), files = a\<rparr>])"
    using sink_tasks_leaf [OF assms, of lk h] by (simp add: sink_tasks_def)
  from assms(2) have "a \<in> leaf_addr ` set (plan_leaves sh c md)"
    by force
  then show "snd (queueRollups sh c lk md ([], h)) a = []"
    by (simp add: plan_snd)
qed

lemma sink_dim:
  assumes "distinct (leaf_addrs md)" and "DimLeaf stem a \<in> set (plan_leaves sh c md)"
  shows "sink_tasks a (fst (queueRollups sh c lk md ([], h))) = dim_items sh lk stem a (h a)"
    and "snd (queueRollups sh c lk md ([], h)) a = []"
proof -
  show "sink_tasks a (fst (queueRollups sh c lk md ([], h))) = dim_items sh lk stem a (h a)"
    using sink_tasks_leaf [OF assms, of lk h] by (simp add: sink_tasks_def dim_tasks_items)
  from assms(2) have "a \<in> leaf_addr ` set (plan_leaves sh c md)"
    by force
  then show "snd (queueRollups sh c lk md ([], h)) a = []"
    by (simp add: plan_snd)
qed

lemma plan_sinks:
  assumes "distinct (leaf_addrs md)" and "t \<in> set (fst (queueRollups sh c lk md ([], h)))"
  shows "files t \<in> set (leaf_addrs md)"
proof -
  from assms(2) consider "t \<in> set (image_tasks md (h (images md)))"
    | "t = core_task sh md (h (core md))"
    | l where "l \<in> set (plan_leaves sh c md)" "t \<in> set (leaf_tasks sh lk l (h (leaf_addr l)))"
    unfolding plan_fst [OF assms(1)] by (auto split: if_splits)
  then show ?thesis
  proof cases
    case 1
    then show ?thesis
      by (auto simp: image_tasks_def set_leaf_addrs [of md sh c])
  next
    case 2
    then show ?thesis
      by (simp add: core_task_def set_leaf_addrs [of md sh c])
  next
    case 3
    then have "files t = leaf_addr l"
      using files_leaf_tasks by blast
    with 3(1) show ?thesis
      by (simp add: set_leaf_addrs [of md sh c])
  qed
qed

lemma plan_frame:
  assumes "a \<notin> set (leaf_addrs md)"
  shows "snd (queueRollups sh c lk md ([], h)) a = h a"
  using assms by (simp add: plan_snd set_leaf_addrs [of md sh c])

lemma pushed_all:
  assumes "mset bs = mset tasks" and "\<forall>t \<in> set tasks. build_error sh env t = None"
  shows "mset (pushed sh env a bs) = mset (map (built_url sh env) (sink_tasks a tasks))"
proof -
  have "filter_mset (\<lambda>t. files t = a \<and> build_error sh env t = None) (mset tasks)
      = filter_mset (\<lambda>t. files t = a) (mset tasks)"
    using assms(2) by (intro filter_mset_cong refl) auto
  then show ?thesis
    by (simp add: mset_pushed assms(1) sink_tasks_def)
qed

lemma mset_single_list: "mset xs = mset [x] \<Longrightarrow> xs = [x]"
  by (cases xs) auto

lemma mset_empty_list: "mset xs = mset [] \<Longrightarrow> xs = []"
  by simp

lemma built_url_ex: "built_url sh_ex env_ex t = ''/static/'' @ builder_name (object t)"
  by (simp add: built_url_def build_ex)

lemma distinct_ex: "distinct (leaf_addrs md_ex)"
  by (simp add: leaf_addrs_def views_def view_addrs_def md_ex_def)

lemma mime_ex: "mime env_ex = mime_lookup"
  by (simp add: env_ex_def)

text \<open>
  Claim C1 (as amended).  For every metadata tree whose leaves are distinct arrays, after a
  build-mode run in which every build succeeds, no exception has escaped and: the
  core list, if it was not empty, holds exactly the URL built for the core rollup of
  the files it held; every client list holds exactly the URL built for the client
  rollup of the files it held if it was not empty, and is empty otherwise; every
  dimension list holds the URL built for the rollup of its scripts, if it had any,
  and the URL built for the rollup of its style sheets, if it had any, in the order
  in which the two builds completed, and nothing else; and the images list holds the
  URL built for each of its images when images are deployed, in the order in which
  the builds completed, and is untouched otherwise.
\<close>

theorem build_run_contents:
  assumes "distinct (leaf_addrs md)" and "0 < sh_parallel sh"
    and "\<forall>t \<in> set (fst (queueRollups sh c (mime env) md ([], h))). build_error sh env t = None"
  shows "snd (compileRollups sh c env md (start h)) = None
    \<and> (h (core md) \<noteq> [] \<longrightarrow>
         heap (fst (compileRollups sh c env md (start h))) (core md)
           = [built_url sh env
                \<lparr>object = new_Rollup (sh_compiled_dir sh @ ''core_{checksum}.js'') (h (core md)),
                 files = core md\<rparr>])
    \<and> (\<forall>m \<in> set (mojits md). \<forall>av \<in> set (snd m).
          heap (fst (compileRollups sh c env md (start h))) (client (snd av))
            = (if h (client (snd av)) = [] then []
               else [built_url sh env
                       \<lparr>object = new_ClientRollup
                          (sh_compiled_dir sh @ ''client_'' @ fst m @ ''_{checksum}.js'')
                          (getAppRoot c) (h (client (snd av))),
                        files = client (snd av)\<rparr>])
          \<and> (\<forall>d \<in> set (shaken (snd av)).
                mset (heap (fst (compileRollups sh c env md (start h))) (snd d))
                  = mset (map (built_url sh env)
                      (dim_items sh (mime env)
                         (fst m @ ''_'' @ replace_star (fst av) @ ''_{checksum}'')
                         (snd d) (h (snd d))))))
    \<and> (\<forall>av \<in> set (app md).
          heap (fst (compileRollups sh c env md (start h))) (client (snd av))
            = (if h (client (snd av)) = [] then []
               else [built_url sh env
                       \<lparr>object = new_ClientRollup
                          (sh_compiled_dir sh @ ''appclient_'' @ fst av @ ''_{checksum}.js'')
                          (getAppRoot c) (h (client (snd av))),
                        files = client (snd av)\<rparr>])
          \<and> (\<forall>d \<in> set (shaken (snd av)).
                mset (heap (fst (compileRollups sh c env md (start h))) (snd d))
                  = mset (map (built_url sh env)
                      (dim_items sh (mime env)
                         (''app_'' @ replace_star (fst av) @ ''_{checksum}'')
                         (snd d) (h (snd d))))))
    \<and> (if sh_images sh
        then mset (heap (fst (compileRollups sh c env md (start h))) (images md))
               = mset (map (\<lambda>file. built_url sh env (image_item md file)) (h (images md)))
        else heap (fst (compileRollups sh c env md (start h))) (images md) = h (images md))"
proof -
  let ?P = "queueRollups sh c (mime env) md ([], h)"
  define sf where "sf = run_queue (sh_parallel sh) (worker sh env) (drain c md)
      (start_queue (sh_parallel sh) (completion_order env) (fst ?P) ((start h)\<lparr>heap := snd ?P\<rparr>))"
  have cr: "compileRollups sh c env md (start h) = (q_world sf, q_thrown sf)"
    unfolding sf_def by (simp add: compileRollups_eq Let_def)
  note r = run_success [OF assms(2) plan_nonempty assms(3) sf_def]
  have cont: "mset (heap (q_world sf) a)
      = mset (snd ?P a) + mset (map (built_url sh env) (sink_tasks a (fst ?P)))" for a
    by (simp add: r(5) [of a] pushed_all [OF r(2) assms(3)])
  have cl: "heap (q_world sf) a
      = (if h a = [] then []
         else [built_url sh env \<lparr>object = new_ClientRollup name base (h a), files = a\<rparr>])"
    if l: "ClientLeaf name base a \<in> set (plan_leaves sh c md)" for name base a
  proof (cases "h a = []")
    case True
    then have "mset (heap (q_world sf) a) = mset []"
      by (simp add: cont sink_client [OF assms(1) l])
    with True show ?thesis
      by simp
  next
    case False
    then have "mset (heap (q_world sf) a)
        = mset [built_url sh env \<lparr>object = new_ClientRollup name base (h a), files = a\<rparr>]"
      by (simp add: cont sink_client [OF assms(1) l])
    then have "heap (q_world sf) a
        = [built_url sh env \<lparr>object = new_ClientRollup name base (h a), files = a\<rparr>]"
      by (rule mset_single_list)
    with False show ?thesis
      by simp
  qed
  have dm: "mset (heap (q_world sf) a)
      = mset (map (built_url sh env) (dim_items sh (mime env) stem a (h a)))"
    if l: "DimLeaf stem a \<in> set (plan_leaves sh c md)" for stem a
    by (simp add: cont sink_dim [OF assms(1) l])
  have core: "heap (q_world sf) (core md)
      = [built_url sh env
           \<lparr>object = new_Rollup (sh_compiled_dir sh @ ''core_{checksum}.js'') (h (core md)),
            files = core md\<rparr>]"
  proof -
    have "mset (heap (q_world sf) (core md))
        = mset [built_url sh env (core_task sh md (h (core md)))]"
      using sink_tasks_core [OF assms(1), of sh c "mime env" h]
      by (simp add: cont sink_tasks_def plan_snd)
    then show ?thesis
      unfolding core_task_def by (rule mset_single_list)
  qed
  from assms(1) have ci: "core md \<noteq> images md"
    and ni: "images md \<notin> leaf_addr ` set (plan_leaves sh c md)"
    by (simp_all add: leaf_addrs_def leaf_addr_plan_leaves flip: set_map)
  have im: "if sh_images sh
      then mset (heap (q_world sf) (images md))
             = mset (map (\<lambda>file. built_url sh env (image_item md file)) (h (images md)))
      else heap (q_world sf) (images md) = h (images md)"
  proof (cases "sh_images sh")
    case True
    then show ?thesis
      using sink_tasks_images [OF assms(1), of sh c "mime env" h]
      by (simp add: cont sink_tasks_def plan_snd image_tasks_items comp_def)
  next
    case False
    have "pushed sh env (images md) (builds (q_world sf)) = []"
      using r(6) [of "images md"] False by (simp add: sink_tasks_images [OF assms(1)])
    with False ci ni show ?thesis
      by (simp add: r(5) [of "images md"] plan_snd)
  qed
  have mj: "heap (q_world sf) (client (snd av))
            = (if h (client (snd av)) = [] then []
               else [built_url sh env
                       \<lparr>object = new_ClientRollup
                          (sh_compiled_dir sh @ ''client_'' @ fst m @ ''_{checksum}.js'')
                          (getAppRoot c) (h (client (snd av))),
                        files = client (snd av)\<rparr>])
          \<and> (\<forall>d \<in> set (shaken (snd av)).
                mset (heap (q_world sf) (snd d))
                  = mset (map (built_url sh env)
                      (dim_items sh (mime env)
                         (fst m @ ''_'' @ replace_star (fst av) @ ''_{checksum}'')
                         (snd d) (h (snd d)))))"
    if "m \<in> set (mojits md)" "av \<in> set (snd m)" for m av
    using cl [OF mojit_client_leaf [OF that]] dm [OF mojit_dim_leaf [OF that]] by blast
  have ap: "heap (q_world sf) (client (snd av))
            = (if h (client (snd av)) = [] then []
               else [built_url sh env
                       \<lparr>object = new_ClientRollup
                          (sh_compiled_dir sh @ ''appclient_'' @ fst av @ ''_{checksum}.js'')
                          (getAppRoot c) (h (client (snd av))),
                        files = client (snd av)\<rparr>])
          \<and> (\<forall>d \<in> set (shaken (snd av)).
                mset (heap (q_world sf) (snd d))
                  = mset (map (built_url sh env)
                      (dim_items sh (mime env)
                         (''app_'' @ replace_star (fst av) @ ''_{checksum}'')
                         (snd d) (h (snd d)))))"
    if "av \<in> set (app md)" for av
    using cl [OF app_client_leaf [OF that]] dm [OF app_dim_leaf [OF that]] by blast
  from r(1) core mj ap im show ?thesis
    unfolding cr fst_conv snd_conv by blast
qed

text \<open>The claim as stated has one URL in every list that was not empty: the dimension
  list at 2 of the example, with a script and a style sheet, ends with two.\<close>

theorem build_run_two_urls_counterexample:
  "snd (run sh_ex c_ex env_ex) = None \<and> h_ex 2 \<noteq> []
   \<and> length (heap (fst (run sh_ex c_ex env_ex)) 2) = 2"
  using run_ex by (simp add: h_ex_def)

text \<open>The run of the example: the URLs of the core, of the client list at 3, of the
  dimension list at 2 and of the two images; the lists at 4 and 5 end empty.\<close>

theorem build_run_contents_witness:
  "distinct (leaf_addrs md_ex) \<and> 0 < sh_parallel sh_ex
   \<and> list_all (\<lambda>t. build_error sh_ex env_ex t = None)
        (fst (queueRollups sh_ex c_ex (mime env_ex) md_ex ([], h_ex)))
   \<and> snd (compileRollups sh_ex c_ex env_ex md_ex (start h_ex)) = None
   \<and> heap (fst (compileRollups sh_ex c_ex env_ex md_ex (start h_ex))) 0
       = [''/static/assets/compiled/core_{checksum}.js'']
   \<and> heap (fst (compileRollups sh_ex c_ex env_ex md_ex (start h_ex))) 3
       = [''/static/assets/compiled/client_m_{checksum}.js'']
   \<and> mset (heap (fst (compileRollups sh_ex c_ex env_ex md_ex (start h_ex))) 2)
       = mset [''/static/assets/compiled/m_default_{checksum}.js'',
               ''/static/assets/compiled/m_default_{checksum}.css'']
   \<and> heap (fst (compileRollups sh_ex c_ex env_ex md_ex (start h_ex))) 5 = []
   \<and> heap (fst (compileRollups sh_ex c_ex env_ex md_ex (start h_ex))) 4 = []
   \<and> mset (heap (fst (compileRollups sh_ex c_ex env_ex md_ex (start h_ex))) 1)
       = mset [''/static/assets/images/a.png'', ''/static/assets/images/b.png'']"
proof -
  have p: "0 < sh_parallel sh_ex"
    by (simp add: sh_ex_def)
  have ok: "\<forall>t \<in> set (fst (queueRollups sh_ex c_ex (mime env_ex) md_ex ([], h_ex))).
      build_error sh_ex env_ex t = None"
    by (simp add: build_error_ex)
  note T = build_run_contents [OF distinct_ex p ok]
  have e: "extension ''a.js'' = ''js''" "extension ''b.css'' = ''css''"
    "extension ''c.png'' = ''png''" "extension ''z.png'' = ''png''"
    by (simp_all add: extension_def)
  have b: "basename ''i/a.png'' = ''a.png''" "basename ''b.png'' = ''b.png''"
    by (simp_all add: basename_def)
  have md: "core md_ex = 0" "images md_ex = 1"
    "mojits md_ex = [(''m'', [(''*'', \<lparr>shaken = [(''common'', 2)], client = 3\<rparr>)])]"
    "app md_ex = [(''index'', \<lparr>shaken = [(''common'', 4)], client = 5\<rparr>)]"
    by (simp_all add: md_ex_def)
  have hx: "h_ex 0 = [''c.js'']" "h_ex 1 = [''i/a.png'', ''b.png'']"
    "h_ex 2 = [''a.js'', ''b.css'', ''c.png'']" "h_ex 3 = [''v.html'', ''x.js'']"
    "h_ex 4 = [''z.png'']" "h_ex 5 = []" "h_ex (Suc 0) = [''i/a.png'', ''b.png'']"
    by (simp_all add: h_ex_def)
  have sx: "sh_compiled_dir sh_ex = ''assets/compiled/''" "sh_images sh_ex"
    by (simp_all add: sh_ex_def)
  from T have "snd (compileRollups sh_ex c_ex env_ex md_ex (start h_ex)) = None"
    by simp
  moreover from T have "heap (fst (compileRollups sh_ex c_ex env_ex md_ex (start h_ex))) 0
       = [''/static/assets/compiled/core_{checksum}.js'']"
    by (simp add: md hx sx built_url_ex new_Rollup_def)
  moreover from T have "heap (fst (compileRollups sh_ex c_ex env_ex md_ex (start h_ex))) 3
       = [''/static/assets/compiled/client_m_{checksum}.js'']
     \<and> mset (heap (fst (compileRollups sh_ex c_ex env_ex md_ex (start h_ex))) 2)
       = mset [''/static/assets/compiled/m_default_{checksum}.js'',
               ''/static/assets/compiled/m_default_{checksum}.css'']"
    by (simp add: md hx sx built_url_ex new_Rollup_def new_ClientRollup_def
        dim_items_def mime_ex mime_lookup_def e)
  moreover from T have "heap (fst (compileRollups sh_ex c_ex env_ex md_ex (start h_ex))) 5 = []
     \<and> heap (fst (compileRollups sh_ex c_ex env_ex md_ex (start h_ex))) 4 = []"
    by (simp add: md hx sx dim_items_def mime_ex mime_lookup_def e)
  moreover from T have "mset (heap (fst (compileRollups sh_ex c_ex env_ex md_ex (start h_ex))) 1)
       = mset [''/static/assets/images/a.png'', ''/static/assets/images/b.png'']"
    by (simp add: md hx sx built_url_ex image_item_def IMAGES_DIR_def ASSETS_DIR_def b)
  ultimately show ?thesis
    using distinct_ex p ok by (simp add: list_all_iff)
qed

text \<open>
  Claim C9.  For every metadata tree whose leaves are distinct arrays, when planning ends:
  the only task whose sink is the core list is the core rollup, of all the files the
  list held; the tasks whose sink is the images list are one image task for each
  file it held, in order, when images are deployed, and none otherwise; the only
  task whose sink is a client list that was not empty is the client rollup of all
  the files it held; the tasks whose sink is a dimension list are the rollup of
  its scripts, if it had any, and the rollup of its style sheets, if it had any
  (files of any other type are in no task); each of these lists is empty, except the
  images list when images are not deployed, which is as it was; every task has a leaf
  of the tree as its sink, and every array that is not a leaf is as it was.  Then at
  every step of the run the builds completed are among the tasks planned, and every
  array holds what planning left in it followed by the URLs pushed by the builds
  completed whose sink it is: it is either as it was before planning, or exactly these
  URLs.
\<close>

theorem leaf_untouched_or_consumed:
  assumes "distinct (leaf_addrs md)"
  shows "sink_tasks (core md) (fst (queueRollups sh c (mime env) md ([], h)))
       = [\<lparr>object = new_Rollup (sh_compiled_dir sh @ ''core_{checksum}.js'') (h (core md)),
           files = core md\<rparr>]
   \<and> snd (queueRollups sh c (mime env) md ([], h)) (core md) = []
   \<and> sink_tasks (images md) (fst (queueRollups sh c (mime env) md ([], h)))
       = (if sh_images sh then map (image_item md) (h (images md)) else [])
   \<and> snd (queueRollups sh c (mime env) md ([], h)) (images md)
       = (if sh_images sh then [] else h (images md))
   \<and> (\<forall>m \<in> set (mojits md). \<forall>av \<in> set (snd m).
         sink_tasks (client (snd av)) (fst (queueRollups sh c (mime env) md ([], h)))
           = (if h (client (snd av)) = [] then []
              else [\<lparr>object = new_ClientRollup
                        (sh_compiled_dir sh @ ''client_'' @ fst m @ ''_{checksum}.js'')
                        (getAppRoot c) (h (client (snd av))),
                     files = client (snd av)\<rparr>])
         \<and> snd (queueRollups sh c (mime env) md ([], h)) (client (snd av)) = []
         \<and> (\<forall>d \<in> set (shaken (snd av)).
               sink_tasks (snd d) (fst (queueRollups sh c (mime env) md ([], h)))
                 = dim_items sh (mime env)
                     (fst m @ ''_'' @ replace_star (fst av) @ ''_{checksum}'') (snd d) (h (snd d))
               \<and> snd (queueRollups sh c (mime env) md ([], h)) (snd d) = []))
   \<and> (\<forall>av \<in> set (app md).
         sink_tasks (client (snd av)) (fst (queueRollups sh c (mime env) md ([], h)))
           = (if h (client (snd av)) = [] then []
              else [\<lparr>object = new_ClientRollup
                        (sh_compiled_dir sh @ ''appclient_'' @ fst av @ ''_{checksum}.js'')
                        (getAppRoot c) (h (client (snd av))),
                     files = client (snd av)\<rparr>])
         \<and> snd (queueRollups sh c (mime env) md ([], h)) (client (snd av)) = []
         \<and> (\<forall>d \<in> set (shaken (snd av)).
               sink_tasks (snd d) (fst (queueRollups sh c (mime env) md ([], h)))
                 = dim_items sh (mime env)
                     (''app_'' @ replace_star (fst av) @ ''_{checksum}'') (snd d) (h (snd d))
               \<and> snd (queueRollups sh c (mime env) md ([], h)) (snd d) = []))
   \<and> (\<forall>t \<in> set (fst (queueRollups sh c (mime env) md ([], h))). files t \<in> set (leaf_addrs md))
   \<and> (\<forall>a. a \<notin> set (leaf_addrs md) \<longrightarrow> snd (queueRollups sh c (mime env) md ([], h)) a = h a)
   \<and> (\<forall>n a.
        let w = q_world ((queue_step (sh_parallel sh) (worker sh env) (drain c md) ^^ n)
                  (start_queue (sh_parallel sh) (completion_order env)
                     (fst (queueRollups sh c (mime env) md ([], h)))
                     ((start h)\<lparr>heap := snd (queueRollups sh c (mime env) md ([], h))\<rparr>)))
        in mset (builds w) \<subseteq># mset (fst (queueRollups sh c (mime env) md ([], h)))
         \<and> heap w a = snd (queueRollups sh c (mime env) md ([], h)) a @ pushed sh env a (builds w)
         \<and> (heap w a = h a \<or> heap w a = pushed sh env a (builds w)))"
proof -
  let ?P = "queueRollups sh c (mime env) md ([], h)"
  from assms have ci: "core md \<noteq> images md"
    and ni: "images md \<notin> leaf_addr ` set (plan_leaves sh c md)"
    by (simp_all add: leaf_addrs_def leaf_addr_plan_leaves flip: set_map)
  have core: "sink_tasks (core md) (fst ?P)
       = [\<lparr>object = new_Rollup (sh_compiled_dir sh @ ''core_{checksum}.js'') (h (core md)),
           files = core md\<rparr>]"
    "snd ?P (core md) = []"
    using sink_tasks_core [OF assms, of sh c "mime env" h]
    by (simp_all add: sink_tasks_def core_task_def plan_snd)
  have img: "sink_tasks (images md) (fst ?P)
       = (if sh_images sh then map (image_item md) (h (images md)) else [])"
    "snd ?P (images md) = (if sh_images sh then [] else h (images md))"
    using sink_tasks_images [OF assms, of sh c "mime env" h] ci ni
    by (simp_all add: sink_tasks_def image_tasks_items plan_snd)
  have mj: "\<forall>m \<in> set (mojits md). \<forall>av \<in> set (snd m).
         sink_tasks (client (snd av)) (fst ?P)
           = (if h (client (snd av)) = [] then []
              else [\<lparr>object = new_ClientRollup
                        (sh_compiled_dir sh @ ''client_'' @ fst m @ ''_{checksum}.js'')
                        (getAppRoot c) (h (client (snd av))),
                     files = client (snd av)\<rparr>])
         \<and> snd ?P (client (snd av)) = []
         \<and> (\<forall>d \<in> set (shaken (snd av)).
               sink_tasks (snd d) (fst ?P)
                 = dim_items sh (mime env)
                     (fst m @ ''_'' @ replace_star (fst av) @ ''_{checksum}'') (snd d) (h (snd d))
               \<and> snd ?P (snd d) = [])"
  proof (intro ballI conjI)
    fix m av assume m: "m \<in> set (mojits md)" "av \<in> set (snd m)"
    show "sink_tasks (client (snd av)) (fst ?P)
           = (if h (client (snd av)) = [] then []
              else [\<lparr>object = new_ClientRollup
                        (sh_compiled_dir sh @ ''client_'' @ fst m @ ''_{checksum}.js'')
                        (getAppRoot c) (h (client (snd av))),
                     files = client (snd av)\<rparr>])"
      by (rule sink_client(1) [OF assms mojit_client_leaf [OF m]])
    show "snd ?P (client (snd av)) = []"
      by (rule sink_client(2) [OF assms mojit_client_leaf [OF m]])
    fix d assume d: "d \<in> set (shaken (snd av))"
    show "sink_tasks (snd d) (fst ?P)
        = dim_items sh (mime env)
            (fst m @ ''_'' @ replace_star (fst av) @ ''_{checksum}'') (snd d) (h (snd d))"
      by (rule sink_dim(1) [OF assms mojit_dim_leaf [OF m d]])
    show "snd ?P (snd d) = []"
      by (rule sink_dim(2) [OF assms mojit_dim_leaf [OF m d]])
  qed
  have ap: "\<forall>av \<in> set (app md).
         sink_tasks (client (snd av)) (fst ?P)
           = (if h (client (snd av)) = [] then []
              else [\<lparr>object = new_ClientRollup
                        (sh_compiled_dir sh @ ''appclient_'' @ fst av @ ''_{checksum}.js'')
                        (getAppRoot c) (h (client (snd av))),
                     files = client (snd av)\<rparr>])
         \<and> snd ?P (client (snd av)) = []
         \<and> (\<forall>d \<in> set (shaken (snd av)).
               sink_tasks (snd d) (fst ?P)
                 = dim_items sh (mime env)
                     (''app_'' @ replace_star (fst av) @ ''_{checksum}'') (snd d) (h (snd d))
               \<and> snd ?P (snd d) = [])"
  proof (intro ballI conjI)
    fix av assume m: "av \<in> set (app md)"
    show "sink_tasks (client (snd av)) (fst ?P)
           = (if h (client (snd av)) = [] then []
              else [\<lparr>object = new_ClientRollup
                        (sh_compiled_dir sh @ ''appclient_'' @ fst av @ ''_{checksum}.js'')
                        (getAppRoot c) (h (client (snd av))),
                     files = client (snd av)\<rparr>])"
      by (rule sink_client(1) [OF assms app_client_leaf [OF m]])
    show "snd ?P (client (snd av)) = []"
      by (rule sink_client(2) [OF assms app_client_leaf [OF m]])
    fix d assume d: "d \<in> set (shaken (snd av))"
    show "sink_tasks (snd d) (fst ?P)
        = dim_items sh (mime env)
            (''app_'' @ replace_star (fst av) @ ''_{checksum}'') (snd d) (h (snd d))"
      by (rule sink_dim(1) [OF assms app_dim_leaf [OF m d]])
    show "snd ?P (snd d) = []"
      by (rule sink_dim(2) [OF assms app_dim_leaf [OF m d]])
  qed
  have sinks: "\<forall>t \<in> set (fst ?P). files t \<in> set (leaf_addrs md)"
    using plan_sinks [OF assms] by blast
  have frame: "\<forall>a. a \<notin> set (leaf_addrs md) \<longrightarrow> snd ?P a = h a"
    using plan_frame by blast
  have ok: "plan_ok h ?P"
    by (rule plan_ok_queueRollups)
  then have a: "\<forall>t \<in> set (fst ?P). snd ?P (files t) = []"
    and b: "\<forall>a. snd ?P a = h a \<or> snd ?P a = []"
    by (simp_all add: plan_ok_def)
  have q: "mset (builds (q_world s)) \<subseteq># mset (fst ?P)
      \<and> heap (q_world s) a = snd ?P a @ pushed sh env a (builds (q_world s))
      \<and> (heap (q_world s) a = h a \<or> heap (q_world s) a = pushed sh env a (builds (q_world s)))"
    if inv: "queue_inv sh env c md (sh_parallel sh) (snd ?P) (fst ?P) s" for s a
  proof -
    from inv have sub: "mset (builds (q_world s)) \<subseteq># mset (fst ?P)"
      by (rule builds_subset)
    from inv have hp: "heap (q_world s) a = snd ?P a @ pushed sh env a (builds (q_world s))"
      by (simp add: queue_inv_def)
    show ?thesis
    proof (cases "snd ?P a = []")
      case True
      with hp sub show ?thesis by simp
    next
      case False
      with b have u: "snd ?P a = h a"
        by auto
      have "pushed sh env a (builds (q_world s)) = []"
        unfolding pushed_def
      proof (simp add: filter_empty_conv, intro ballI impI)
        fix t assume "t \<in> set (builds (q_world s))" and "files t = a"
        moreover from sub have "set (builds (q_world s)) \<subseteq> set (fst ?P)"
          by (metis set_mset_mono set_mset_mset)
        ultimately have "snd ?P a = []"
          using a by auto
        with False show "\<exists>y. build_error sh env t = Some y"
          by simp
      qed
      with hp u sub show ?thesis by simp
    qed
  qed
  have run: "\<forall>n a.
      let w = q_world ((queue_step (sh_parallel sh) (worker sh env) (drain c md) ^^ n)
                (start_queue (sh_parallel sh) (completion_order env) (fst ?P)
                   ((start h)\<lparr>heap := snd ?P\<rparr>)))
      in mset (builds w) \<subseteq># mset (fst ?P)
       \<and> heap w a = snd ?P a @ pushed sh env a (builds w)
       \<and> (heap w a = h a \<or> heap w a = pushed sh env a (builds w))"
    unfolding Let_def using q [OF funpow_inv [OF start_inv]] by blast
  from core img mj ap sinks frame run show ?thesis
    by blast
qed

text \<open>The plan of the example, sink by sink: the core at 0, the images at 1, the client
  list at 3, the dimension list at 2 whose image file is in no task, the empty client
  list at 5 and the dimension list at 4 with neither script nor style sheet; the array at
  7 is no leaf.\<close>

theorem leaf_untouched_or_consumed_witness:
  "distinct (leaf_addrs md_ex)
   \<and> sink_tasks 0 (fst (queueRollups sh_ex c_ex (mime env_ex) md_ex ([], h_ex)))
       = [\<lparr>object = Rollup ''assets/compiled/core_{checksum}.js''
                     [\<lparr>item_name = ''c.js'', item_sync = True\<rparr>], files = 0\<rparr>]
   \<and> sink_tasks 1 (fst (queueRollups sh_ex c_ex (mime env_ex) md_ex ([], h_ex)))
       = [\<lparr>object = Image ''assets/images/a.png'' ''i/a.png'', files = 1\<rparr>,
          \<lparr>object = Image ''assets/images/b.png'' ''b.png'', files = 1\<rparr>]
   \<and> sink_tasks 3 (fst (queueRollups sh_ex c_ex (mime env_ex) md_ex ([], h_ex)))
       = [\<lparr>object = ClientRollup ''assets/compiled/client_m_{checksum}.js'' ''/app''
                     [\<lparr>item_name = ''v.html'', item_sync = True\<rparr>,
                      \<lparr>item_name = ''x.js'', item_sync = True\<rparr>], files = 3\<rparr>]
   \<and> sink_tasks 2 (fst (queueRollups sh_ex c_ex (mime env_ex) md_ex ([], h_ex)))
       = [\<lparr>object = Rollup ''assets/compiled/m_default_{checksum}.js''
                     [\<lparr>item_name = ''a.js'', item_sync = True\<rparr>], files = 2\<rparr>,
          \<lparr>object = Rollup ''assets/compiled/m_default_{checksum}.css''
                     [\<lparr>item_name = ''b.css'', item_sync = True\<rparr>], files = 2\<rparr>]
   \<and> sink_tasks 5 (fst (queueRollups sh_ex c_ex (mime env_ex) md_ex ([], h_ex))) = []
   \<and> sink_tasks 4 (fst (queueRollups sh_ex c_ex (mime env_ex) md_ex ([], h_ex))) = []
   \<and> map (snd (queueRollups sh_ex c_ex (mime env_ex) md_ex ([], h_ex))) [0, 1, 2, 3, 4, 5]
       = [[], [], [], [], [], []]
   \<and> h_ex 4 = [''z.png'']
   \<and> snd (queueRollups sh_ex c_ex (mime env_ex) md_ex ([], h_ex)) 7 = h_ex 7"
proof -
  note T = leaf_untouched_or_consumed [OF distinct_ex, of sh_ex c_ex env_ex h_ex]
  have e: "extension ''a.js'' = ''js''" "extension ''b.css'' = ''css''"
    "extension ''c.png'' = ''png''" "extension ''z.png'' = ''png''"
    by (simp_all add: extension_def)
  have b: "basename ''i/a.png'' = ''a.png''" "basename ''b.png'' = ''b.png''"
    by (simp_all add: basename_def)
  have md: "core md_ex = 0" "images md_ex = 1"
    "mojits md_ex = [(''m'', [(''*'', \<lparr>shaken = [(''common'', 2)], client = 3\<rparr>)])]"
    "app md_ex = [(''index'', \<lparr>shaken = [(''common'', 4)], client = 5\<rparr>)]"
    by (simp_all add: md_ex_def)
  have hx: "h_ex 0 = [''c.js'']" "h_ex 1 = [''i/a.png'', ''b.png'']"
    "h_ex 2 = [''a.js'', ''b.css'', ''c.png'']" "h_ex 3 = [''v.html'', ''x.js'']"
    "h_ex 4 = [''z.png'']" "h_ex 5 = []" "h_ex (Suc 0) = [''i/a.png'', ''b.png'']"
    by (simp_all add: h_ex_def)
  have sx: "sh_compiled_dir sh_ex = ''assets/compiled/''" "sh_images sh_ex"
    "getAppRoot c_ex = ''/app''"
    by (simp_all add: sh_ex_def c_ex_def)
  have n7: "7 \<notin> set (leaf_addrs md_ex)"
    by (simp add: leaf_addrs_def views_def view_addrs_def md)
  from T have "sink_tasks 0 (fst (queueRollups sh_ex c_ex (mime env_ex) md_ex ([], h_ex)))
       = [\<lparr>object = Rollup ''assets/compiled/core_{checksum}.js''
                     [\<lparr>item_name = ''c.js'', item_sync = True\<rparr>], files = 0\<rparr>]
     \<and> snd (queueRollups sh_ex c_ex (mime env_ex) md_ex ([], h_ex)) 0 = []"
    by (simp add: md hx sx new_Rollup_def sync_items_def)
  moreover from T have "sink_tasks 1 (fst (queueRollups sh_ex c_ex (mime env_ex) md_ex ([], h_ex)))
       = [\<lparr>object = Image ''assets/images/a.png'' ''i/a.png'', files = 1\<rparr>,
          \<lparr>object = Image ''assets/images/b.png'' ''b.png'', files = 1\<rparr>]
     \<and> snd (queueRollups sh_ex c_ex (mime env_ex) md_ex ([], h_ex)) 1 = []"
    by (simp add: md hx sx image_item_def IMAGES_DIR_def ASSETS_DIR_def b)
  moreover from T have "sink_tasks 3 (fst (queueRollups sh_ex c_ex (mime env_ex) md_ex ([], h_ex)))
       = [\<lparr>object = ClientRollup ''assets/compiled/client_m_{checksum}.js'' ''/app''
                     [\<lparr>item_name = ''v.html'', item_sync = True\<rparr>,
                      \<lparr>item_name = ''x.js'', item_sync = True\<rparr>], files = 3\<rparr>]
     \<and> snd (queueRollups sh_ex c_ex (mime env_ex) md_ex ([], h_ex)) 3 = []
     \<and> sink_tasks 2 (fst (queueRollups sh_ex c_ex (mime env_ex) md_ex ([], h_ex)))
       = [\<lparr>object = Rollup ''assets/compiled/m_default_{checksum}.js''
                     [\<lparr>item_name = ''a.js'', item_sync = True\<rparr>], files = 2\<rparr>,
          \<lparr>object = Rollup ''assets/compiled/m_default_{checksum}.css''
                     [\<lparr>item_name = ''b.css'', item_sync = True\<rparr>], files = 2\<rparr>]
     \<and> snd (queueRollups sh_ex c_ex (mime env_ex) md_ex ([], h_ex)) 2 = []"
    by (simp add: md hx sx new_Rollup_def new_ClientRollup_def sync_items_def
        dim_items_def mime_ex mime_lookup_def e)
  moreover from T have "sink_tasks 5 (fst (queueRollups sh_ex c_ex (mime env_ex) md_ex ([], h_ex))) = []
     \<and> snd (queueRollups sh_ex c_ex (mime env_ex) md_ex ([], h_ex)) 5 = []
     \<and> sink_tasks 4 (fst (queueRollups sh_ex c_ex (mime env_ex) md_ex ([], h_ex))) = []
     \<and> snd (queueRollups sh_ex c_ex (mime env_ex) md_ex ([], h_ex)) 4 = []"
    by (simp add: md hx sx dim_items_def mime_ex mime_lookup_def e)
  moreover from T n7 have "snd (queueRollups sh_ex c_ex (mime env_ex) md_ex ([], h_ex)) 7 = h_ex 7"
    by blast
  ultimately show ?thesis
    using distinct_ex by (simp add: hx)
qed

end
